theory Spec2Isabelle
  imports Main
begin

section \<open>The RCON web relay: data model\<close>

text \<open>
  The program (\<^verbatim>\<open>src/app/main.js\<close>) keeps two globals, \<^verbatim>\<open>rconReady\<close> and \<^verbatim>\<open>rcon\<close>, creates
  one \<^verbatim>\<open>Rcon\<close> event emitter per call of \<^verbatim>\<open>connectRcon\<close>, and one closure (\<^verbatim>\<open>handled\<close>,
  \<^verbatim>\<open>onResponse\<close>, \<^verbatim>\<open>onError\<close>, a timeout) per dispatched \<^verbatim>\<open>sendGamemode\<close>. Node runs every
  handler to completion on one thread, so the program is a deterministic function from
  the state and the next event to the next state.

  The strings the program only passes on (commands, response texts, messages) are lists
  of 8-bit characters; the strings of a request, which it trims and tests, are lists of
  UTF-16 code units (see the request handler). A JavaScript \<^verbatim>\<open>Error\<close> (and any thrown or
  emitted error value) is represented by its message.
\<close>

datatype error = Error string

text \<open>What the caller's \<^verbatim>\<open>callback\<close> is invoked with: \<^verbatim>\<open>callback(err)\<close> or
  \<^verbatim>\<open>callback(null, resp)\<close>.\<close>

datatype outcome = Failed error | Done string

text \<open>The events an \<^verbatim>\<open>Rcon\<close> object emits, with their payload, and their names.\<close>

datatype signal = Auth | Response string | Failure error | End

datatype evname = N_auth | N_response | N_error | N_end

fun name_of :: "signal \<Rightarrow> evname" where
  "name_of Auth = N_auth"
| "name_of (Response str) = N_response"
| "name_of (Failure err) = N_error"
| "name_of End = N_end"

text \<open>
  The listener functions of the program: the four arrow functions that \<^verbatim>\<open>connectRcon\<close>
  registers, and \<^verbatim>\<open>onResponse\<close> and \<^verbatim>\<open>onError\<close> of the \<open>k\<close>-th invocation of
  \<^verbatim>\<open>sendGamemode\<close>.
\<close>

datatype handler =
    H_auth | H_response | H_error | H_end
  | OnResponse nat | OnError nat

text \<open>A registered listener: event name, function, and whether it was added by \<^verbatim>\<open>once\<close>.\<close>

type_synonym listener = "evname \<times> handler \<times> bool"

text \<open>An \<^verbatim>\<open>Rcon\<close> object: its listeners in registration order, and how often \<^verbatim>\<open>connect()\<close> was
  called on it.\<close>

record emitter =
  listeners :: "listener list"
  connect_calls :: nat

text \<open>
  One record per invocation of \<^verbatim>\<open>sendGamemode\<close>: the closure variable \<^verbatim>\<open>handled\<close> and the
  outcomes \<^verbatim>\<open>callback\<close> has been invoked with, oldest first. (An invocation rejected at the
  guard never declares \<^verbatim>\<open>handled\<close>; its field stays \<open>False\<close> and nothing reads it.)
\<close>

record invocation =
  handled :: bool
  results :: "outcome list"

text \<open>What a \<^verbatim>\<open>setTimeout\<close> callback does: \<^verbatim>\<open>connectRcon\<close>, or the fallback timeout of
  invocation \<open>k\<close>.\<close>

datatype timer_action = T_connectRcon | T_timeout nat

text \<open>
  What one call on \<^verbatim>\<open>console\<close> prints. \<^verbatim>\<open>console.log\<close> writes its string arguments, joined
  by a space, to standard output. \<^verbatim>\<open>console.error('RCON error:', err)\<close> writes the text and
  then the rendering of the error value (its name, message and stack) to standard error;
  the entry keeps the text and the error value itself.
\<close>

datatype printed = Stdout string | Stderr string error

record state =
  rconReady :: bool
  rcon :: nat                                \<comment> \<open>index into \<open>conns\<close> of the current object\<close>
  conns :: "emitter list"                    \<comment> \<open>every \<^verbatim>\<open>Rcon\<close> object created so far\<close>
  calls :: "invocation list"                 \<comment> \<open>every \<^verbatim>\<open>sendGamemode\<close> invocation so far\<close>
  timers :: "(nat \<times> timer_action) list"      \<comment> \<open>pending timeouts (due time, action), oldest first\<close>
  now :: nat                                 \<comment> \<open>the clock, in milliseconds\<close>
  sent :: "(nat \<times> string) list"             \<comment> \<open>arguments of every \<^verbatim>\<open>rcon.send\<close>: object, command\<close>
  console :: "printed list"                  \<comment> \<open>every \<^verbatim>\<open>console.log/error\<close> call, oldest first\<close>

section \<open>The event emitter\<close>

definition on :: "evname \<Rightarrow> handler \<Rightarrow> emitter \<Rightarrow> emitter" where
  "on n h e = e\<lparr>listeners := listeners e @ [(n, h, False)]\<rparr>"

definition once :: "evname \<Rightarrow> handler \<Rightarrow> emitter \<Rightarrow> emitter" where
  "once n h e = e\<lparr>listeners := listeners e @ [(n, h, True)]\<rparr>"

text \<open>\<^verbatim>\<open>removeListener\<close> removes the most recently added instance of the function under that
  name, whether added by \<^verbatim>\<open>on\<close> or \<^verbatim>\<open>once\<close>, and nothing when there is none.\<close>

fun remove_first :: "evname \<Rightarrow> handler \<Rightarrow> listener list \<Rightarrow> listener list" where
  "remove_first n h [] = []"
| "remove_first n h ((n', h', o') # ls) =
     (if n' = n \<and> h' = h then ls else (n', h', o') # remove_first n h ls)"

definition removeListener :: "evname \<Rightarrow> handler \<Rightarrow> emitter \<Rightarrow> emitter" where
  "removeListener n h e = e\<lparr>listeners := rev (remove_first n h (rev (listeners e)))\<rparr>"

text \<open>Updating the object at index \<open>c\<close> of the heap of \<^verbatim>\<open>Rcon\<close> objects.\<close>

definition update_conn :: "nat \<Rightarrow> (emitter \<Rightarrow> emitter) \<Rightarrow> state \<Rightarrow> state" where
  "update_conn c f s =
     (if c < length (conns s) then s\<lparr>conns := (conns s)[c := f (conns s ! c)]\<rparr> else s)"

section \<open>The listener functions\<close>

text \<open>\<^verbatim>\<open>callback(...)\<close> of invocation \<open>k\<close>: the outcome is appended to its record.\<close>

definition callback :: "nat \<Rightarrow> outcome \<Rightarrow> state \<Rightarrow> state" where
  "callback k out s =
     (if k < length (calls s)
      then s\<lparr>calls := (calls s)[k := (calls s ! k)\<lparr>results := results (calls s ! k) @ [out]\<rparr>]\<rparr>
      else s)"

definition set_handled :: "nat \<Rightarrow> state \<Rightarrow> state" where
  "set_handled k s =
     (if k < length (calls s)
      then s\<lparr>calls := (calls s)[k := (calls s ! k)\<lparr>handled := True\<rparr>]\<rparr>
      else s)"

definition is_handled :: "nat \<Rightarrow> state \<Rightarrow> bool" where
  "is_handled k s = (k < length (calls s) \<and> handled (calls s ! k))"

definition setTimeout :: "timer_action \<Rightarrow> nat \<Rightarrow> state \<Rightarrow> state" where
  "setTimeout a ms s = s\<lparr>timers := timers s @ [(now s + ms, a)]\<rparr>"

definition log :: "printed \<Rightarrow> state \<Rightarrow> state" where
  "log line s = s\<lparr>console := console s @ [line]\<rparr>"

text \<open>
  The body of each listener. A listener is only ever registered under one event name, so
  it is only ever called with that event's payload; the other combinations cannot occur
  and leave the state alone.
\<close>

fun run_handler :: "handler \<Rightarrow> signal \<Rightarrow> state \<Rightarrow> state" where
  "run_handler H_auth Auth s = log (Stdout ''RCON connected'') (s\<lparr>rconReady := True\<rparr>)"
| "run_handler H_response (Response str) s = log (Stdout (''RCON response: '' @ str)) s"
| "run_handler H_error (Failure err) s = log (Stderr ''RCON error:'' err) s"
| "run_handler H_end End s =
     setTimeout T_connectRcon 5000
       ((log (Stdout ''RCON disconnected, attempting reconnect in 5s'') s)\<lparr>rconReady := False\<rparr>)"
| "run_handler (OnResponse k) (Response resp) s =
     (if is_handled k s then s else callback k (Done resp) (set_handled k s))"
| "run_handler (OnError k) (Failure err) s =
     (if is_handled k s then s else callback k (Failed err) (set_handled k s))"
| "run_handler _ _ s = s"

text \<open>
  \<^verbatim>\<open>emit\<close>: the listeners registered under the event's name at the time of the call are
  invoked in registration order; a \<^verbatim>\<open>once\<close> listener is removed just before it runs.
\<close>

definition invoke :: "nat \<Rightarrow> signal \<Rightarrow> listener \<Rightarrow> state \<Rightarrow> state" where
  "invoke c sig l s =
     run_handler (fst (snd l)) sig
       (if snd (snd l)
        then update_conn c (\<lambda>e. e\<lparr>listeners := remove1 l (listeners e)\<rparr>) s
        else s)"

fun invoke_all :: "nat \<Rightarrow> signal \<Rightarrow> listener list \<Rightarrow> state \<Rightarrow> state" where
  "invoke_all c sig [] s = s"
| "invoke_all c sig (l # ls) s = invoke_all c sig ls (invoke c sig l s)"

definition emit :: "nat \<Rightarrow> signal \<Rightarrow> state \<Rightarrow> state" where
  "emit c sig s =
     (if c < length (conns s)
      then invoke_all c sig (filter (\<lambda>l. fst l = name_of sig) (listeners (conns s ! c))) s
      else s)"

section \<open>connectRcon\<close>

definition connectRcon :: "state \<Rightarrow> state" where
  "connectRcon s =
     (let c = length (conns s);
          e = on N_end H_end (on N_error H_error (on N_response H_response (on N_auth H_auth
                \<lparr>listeners = [], connect_calls = 0\<rparr>)))
      in s\<lparr>rcon := c, conns := conns s @ [e\<lparr>connect_calls := 1\<rparr>]\<rparr>)"

text \<open>The state when the module has been loaded: the globals as declared, then the
  top-level call \<^verbatim>\<open>connectRcon()\<close>.\<close>

definition boot :: state where
  "boot = \<lparr>rconReady = False, rcon = 0, conns = [], calls = [], timers = [], now = 0,
           sent = [], console = []\<rparr>"

definition init :: state where
  "init = connectRcon boot"

section \<open>sendGamemode\<close>

text \<open>
  \<open>thrown\<close> is what \<^verbatim>\<open>rcon.send(cmd)\<close> of the library does in this call: \<open>None\<close> when it
  returns, \<open>Some e\<close> when it throws \<open>e\<close>. The invocation's index \<open>k\<close> stands for its
  closure.
\<close>

definition timeout_body :: "nat \<Rightarrow> state \<Rightarrow> state" where
  "timeout_body k s =
     (if \<not> is_handled k s
      then callback k (Failed (Error ''RCON command timeout''))
             (update_conn (rcon s) (removeListener N_error (OnError k))
               (update_conn (rcon s) (removeListener N_response (OnResponse k))
                 (set_handled k s)))
      else s)"

definition sendGamemode :: "string \<Rightarrow> error option \<Rightarrow> state \<Rightarrow> state" where
  "sendGamemode username thrown s =
     (let k = length (calls s) in
      if \<not> rconReady s
      then callback k (Failed (Error ''RCON not connected''))
             (s\<lparr>calls := calls s @ [\<lparr>handled = False, results = []\<rparr>]\<rparr>)
      else
        let cmd = ''gamemode survival '' @ username;
            s1 = s\<lparr>calls := calls s @ [\<lparr>handled = False, results = []\<rparr>]\<rparr>;
            s2 = update_conn (rcon s1) (once N_response (OnResponse k)) s1;
            s3 = update_conn (rcon s2) (once N_error (OnError k)) s2;
            s4 = s3\<lparr>sent := sent s3 @ [(rcon s3, cmd)]\<rparr>;
            s5 = (case thrown of
                    None \<Rightarrow> s4
                  | Some e \<Rightarrow>
                      callback k (Failed e)
                        (update_conn (rcon s4) (removeListener N_error (OnError k))
                          (update_conn (rcon s4) (removeListener N_response (OnResponse k)) s4)))
        in setTimeout (T_timeout k) 5000 s5)"

section \<open>Timers and the event loop\<close>

fun run_timer :: "timer_action \<Rightarrow> state \<Rightarrow> state" where
  "run_timer T_connectRcon s = connectRcon s"
| "run_timer (T_timeout k) s = timeout_body k s"

text \<open>
  Both \<^verbatim>\<open>setTimeout\<close> calls of the program use 5000 ms, so Node keeps the pending timers in
  one list in insertion order and looks at its head only. \<open>advance_to t\<close> lets the clock
  run to \<open>t\<close>: while the oldest timer is due it is removed and run, at its due time.
\<close>

function advance_to :: "nat \<Rightarrow> state \<Rightarrow> state" where
  "advance_to t s =
     (case timers s of
        [] \<Rightarrow> s\<lparr>now := max (now s) t\<rparr>
      | (due, a) # rest \<Rightarrow>
          if due \<le> t
          then advance_to t (run_timer a (s\<lparr>timers := rest, now := max (now s) due\<rparr>))
          else s\<lparr>now := max (now s) t\<rparr>)"
  by pat_completeness auto
termination
proof (relation "measure (\<lambda>(t, s). length (timers s))")
  show "wf (measure (\<lambda>(t, s). length (timers s)))"
    by simp
next
  fix t :: nat and s :: state and x due a rest
  assume "timers s = x # rest"
  then show "((t, run_timer a (s\<lparr>timers := rest, now := max (now s) due\<rparr>)), (t, s))
               \<in> measure (\<lambda>(t, s). length (timers s))"
    by (cases a)
       (simp_all add: connectRcon_def timeout_body_def callback_def set_handled_def
          update_conn_def Let_def)
qed

declare advance_to.simps [simp del]

text \<open>
  What happens to the program: an \<^verbatim>\<open>Rcon\<close> object emits an event, a caller invokes
  \<^verbatim>\<open>sendGamemode\<close> (with what \<^verbatim>\<open>rcon.send\<close> will do), or time passes.
\<close>

datatype event =
    Ev_emit nat signal
  | Ev_call string "error option"
  | Ev_advance nat

fun step :: "event \<Rightarrow> state \<Rightarrow> state" where
  "step (Ev_emit c sig) s = emit c sig s"
| "step (Ev_call username thrown) s = sendGamemode username thrown s"
| "step (Ev_advance d) s = advance_to (now s + d) s"

fun run :: "event list \<Rightarrow> state \<Rightarrow> state" where
  "run [] s = s"
| "run (e # es) s = run es (step e s)"

text \<open>A Pending Command: an invocation whose callback has not been invoked yet.\<close>

definition pending :: "state \<Rightarrow> nat list" where
  "pending s = filter (\<lambda>k. results (calls s ! k) = []) [0..<length (calls s)]"

section \<open>The request handler of POST /set\<close>

text \<open>
  What the request submits is arbitrary text, so here a JavaScript string is the list of
  its UTF-16 code units, as numbers. \<open>units\<close> gives the code units of a text written in
  8-bit characters, and \<open>narrow\<close> goes back; \<open>narrow\<close> is exact on code units below 256.
\<close>

type_synonym jstring = "nat list"

definition units :: "string \<Rightarrow> jstring" where
  "units cs = map of_char cs"

definition narrow :: "jstring \<Rightarrow> string" where
  "narrow u = map char_of u"

text \<open>
  \<^verbatim>\<open>String.prototype.trim\<close> removes white space and line terminators at both ends: U+0009 to
  U+000D, U+0020, U+00A0, U+1680, U+2000 to U+200A, U+2028, U+2029, U+202F, U+205F, U+3000
  and U+FEFF.
\<close>

definition js_space :: "nat \<Rightarrow> bool" where
  "js_space n =
     ((9 \<le> n \<and> n \<le> 13) \<or> n = 32 \<or> n = 160 \<or> n = 5760 \<or> (8192 \<le> n \<and> n \<le> 8202) \<or>
      n = 8232 \<or> n = 8233 \<or> n = 8239 \<or> n = 8287 \<or> n = 12288 \<or> n = 65279)"

definition trim :: "jstring \<Rightarrow> jstring" where
  "trim u = rev (dropWhile js_space (rev (dropWhile js_space u)))"

text \<open>
  The test \<^verbatim>\<open>/^[A-Za-z0-9_]{3,16}$/.test(username)\<close>. The class is read off the code
  units; the quantifier is greedy and takes up to 16 characters of the class; at least 3
  must have been taken and \<^verbatim>\<open>$\<close> (no flags) only matches at the very end of the input.
\<close>

definition word_char :: "nat \<Rightarrow> bool" where
  "word_char n =
     ((65 \<le> n \<and> n \<le> 90) \<or> (97 \<le> n \<and> n \<le> 122) \<or> (48 \<le> n \<and> n \<le> 57) \<or> n = 95)"

fun take_class :: "nat \<Rightarrow> jstring \<Rightarrow> nat \<times> jstring" where
  "take_class 0 cs = (0, cs)"
| "take_class (Suc n) [] = (0, [])"
| "take_class (Suc n) (c # cs) =
     (if word_char c
      then (case take_class n cs of (m, rest) \<Rightarrow> (Suc m, rest))
      else (0, c # cs))"

definition username_test :: "jstring \<Rightarrow> bool" where
  "username_test u = (case take_class 16 u of (m, rest) \<Rightarrow> 3 \<le> m \<and> rest = [])"

text \<open>
  The \<^verbatim>\<open>'end'\<close> callback of a POST to \<^verbatim>\<open>/set\<close>, from the parsed body on: \<open>p_username\<close> and
  \<open>p_password\<close> are what \<^verbatim>\<open>params.get\<close> returns (\<open>None\<close> for \<^verbatim>\<open>null\<close>). It either answers at
  once, with a status code and the message handed to \<^verbatim>\<open>renderForm\<close>, or calls
  \<^verbatim>\<open>sendGamemode\<close>, whose callback answers later. A username that has passed the test has
  code units below 128 only, so \<open>narrow\<close> hands \<^verbatim>\<open>sendGamemode\<close> the very same characters.
\<close>

definition or_empty :: "jstring option \<Rightarrow> jstring" where
  "or_empty p = (case p of None \<Rightarrow> [] | Some v \<Rightarrow> v)"

definition post_set ::
  "jstring \<Rightarrow> jstring option \<Rightarrow> jstring option \<Rightarrow> error option \<Rightarrow> state
     \<Rightarrow> (nat \<times> string) option \<times> state" where
  "post_set AUTH_PASSWORD p_username p_password thrown s =
     (let username = trim (or_empty p_username);
          password = or_empty p_password
      in if AUTH_PASSWORD = [] then
           (Some (500, ''Server not configured (AUTH_PASSWORD missing).''), s)
         else if password \<noteq> AUTH_PASSWORD then
           (Some (403, ''Invalid password.''), s)
         else if \<not> username_test username then
           (Some (400, ''Invalid username format.''), s)
         else if \<not> rconReady s then
           (Some (503, ''RCON not connected yet. Try again shortly.''), s)
         else (None, sendGamemode (narrow username) thrown s))"

section \<open>Notions used in the statements and proofs\<close>

subsection \<open>Hypotheses on event sequences\<close>

text \<open>The callers serialize: every call of \<^verbatim>\<open>sendGamemode\<close> in the sequence is made in a state
  with no Pending Command.\<close>

fun serialized :: "event list \<Rightarrow> state \<Rightarrow> bool" where
  "serialized [] s = True"
| "serialized (Ev_call username thrown # es) s =
     (pending s = [] \<and> serialized es (sendGamemode username thrown s))"
| "serialized (e # es) s = serialized es (step e s)"

text \<open>No \<^verbatim>\<open>'response'\<close> and no \<^verbatim>\<open>'error'\<close> event occurs in the sequence, on any object.\<close>

fun quiet :: "event list \<Rightarrow> bool" where
  "quiet [] = True"
| "quiet (Ev_emit c (Response resp) # es) = False"
| "quiet (Ev_emit c (Failure err) # es) = False"
| "quiet (e # es) = quiet es"

text \<open>The \<^verbatim>\<open>Rcon\<close> object as \<^verbatim>\<open>connectRcon\<close> leaves it: four listeners, \<^verbatim>\<open>connect\<close> called once.\<close>

definition fresh_rcon :: emitter where
  "fresh_rcon =
     \<lparr>listeners = [(N_auth, H_auth, False), (N_response, H_response, False),
                   (N_error, H_error, False), (N_end, H_end, False)],
      connect_calls = 1\<rparr>"

subsection \<open>Relations between a state and a later one\<close>

text \<open>An invocation record is unchanged, or it was unhandled and is now handled with one
  more outcome.\<close>

definition settles :: "invocation \<Rightarrow> invocation \<Rightarrow> bool" where
  "settles r r' =
     (r' = r \<or> (\<not> handled r \<and> handled r' \<and> (\<exists>out. results r' = results r @ [out])))"

text \<open>Every invocation settles and none is added (events and timers); or some may be
  added (calls).\<close>

definition calls_settle :: "state \<Rightarrow> state \<Rightarrow> bool" where
  "calls_settle s s' =
     (length (calls s') = length (calls s) \<and>
      (\<forall>k<length (calls s). settles (calls s ! k) (calls s' ! k)))"

definition calls_grow :: "state \<Rightarrow> state \<Rightarrow> bool" where
  "calls_grow s s' =
     (length (calls s) \<le> length (calls s') \<and>
      (\<forall>k<length (calls s). settles (calls s ! k) (calls s' ! k)))"

subsection \<open>Invariants of the reachable states\<close>

text \<open>The current object exists and every object has exactly the \<^verbatim>\<open>'end'\<close> listener of
  \<^verbatim>\<open>connectRcon\<close>; no timer is due later than 5000 ms from now, and a timeout belongs to an
  invocation that exists.\<close>

definition end_listeners :: "emitter \<Rightarrow> listener list" where
  "end_listeners e = filter (\<lambda>l. fst l = N_end) (listeners e)"

definition conns_ok :: "state \<Rightarrow> bool" where
  "conns_ok s =
     (rcon s < length (conns s) \<and>
      (\<forall>e\<in>set (conns s). end_listeners e = [(N_end, H_end, False)]))"

definition timers_ok :: "state \<Rightarrow> bool" where
  "timers_ok s =
     (\<forall>x\<in>set (timers s).
        fst x \<le> now s + 5000 \<and> (\<forall>j. snd x = T_timeout j \<longrightarrow> j < length (calls s)))"

subsection \<open>The life of one command\<close>

text \<open>The invocation a listener resolves when called with an event, and with what.\<close>

fun settled_by :: "handler \<Rightarrow> signal \<Rightarrow> (nat \<times> outcome) option" where
  "settled_by (OnResponse k) (Response resp) = Some (k, Done resp)"
| "settled_by (OnError k) (Failure err) = Some (k, Failed err)"
| "settled_by _ _ = None"

definition settle :: "outcome \<Rightarrow> invocation \<Rightarrow> invocation" where
  "settle out r = r\<lparr>handled := True, results := results r @ [out]\<rparr>"

text \<open>What \<^verbatim>\<open>'response'\<close> and \<^verbatim>\<open>'error'\<close> events leave alone.\<close>

definition session_same :: "state \<Rightarrow> state \<Rightarrow> bool" where
  "session_same s s' =
     (rconReady s' = rconReady s \<and> rcon s' = rcon s \<and> timers s' = timers s \<and>
      now s' = now s \<and> sent s' = sent s \<and>
      map connect_calls (conns s') = map connect_calls (conns s))"

text \<open>The clock stands still and timers are only added, each due 5000 ms from now.\<close>

definition sched :: "state \<Rightarrow> state \<Rightarrow> bool" where
  "sched s s' =
     (now s' = now s \<and> length (calls s) \<le> length (calls s') \<and>
      (\<exists>new. timers s' = timers s @ new \<and>
         (\<forall>x\<in>set new. fst x = now s + 5000 \<and>
            (\<forall>j. snd x = T_timeout j \<longrightarrow> j < length (calls s')))))"

text \<open>Invocation \<open>k\<close> is unresolved and its timeout, due at \<open>D\<close>, is in the queue behind
  timers that are due no later and belong to others; or it has been resolved by its
  timeout; \<open>on_time\<close> says which of the two holds according to the clock.\<close>

definition waiting :: "nat \<Rightarrow> nat \<Rightarrow> state \<Rightarrow> bool" where
  "waiting D k s =
     (k < length (calls s) \<and> \<not> handled (calls s ! k) \<and> results (calls s ! k) = [] \<and>
      (\<exists>pre post. timers s = pre @ (D, T_timeout k) # post \<and>
         (\<forall>x\<in>set pre. fst x \<le> D \<and> snd x \<noteq> T_timeout k)))"

definition timed_out :: "nat \<Rightarrow> state \<Rightarrow> bool" where
  "timed_out k s =
     (k < length (calls s) \<and> handled (calls s ! k) \<and>
      results (calls s ! k) = [Failed (Error ''RCON command timeout'')])"

definition on_time :: "nat \<Rightarrow> nat \<Rightarrow> state \<Rightarrow> bool" where
  "on_time D k s = (if now s < D then waiting D k s else timed_out k s)"

text \<open>\<^verbatim>\<open>onResponse\<close> of invocation \<open>k\<close> is registered on object \<open>c\<close>.\<close>

definition listening :: "nat \<Rightarrow> nat \<Rightarrow> state \<Rightarrow> bool" where
  "listening c k s =
     (c < length (conns s) \<and> (N_response, OnResponse k, True) \<in> set (listeners (conns s ! c)))"

section \<open>Lemmas\<close>

subsection \<open>What each primitive changes\<close>

lemma timers_callback [simp]: "timers (callback k out s) = timers s"
  by (simp add: callback_def)

lemma timers_set_handled [simp]: "timers (set_handled k s) = timers s"
  by (simp add: set_handled_def)

lemma timers_update_conn [simp]: "timers (update_conn c f s) = timers s"
  by (simp add: update_conn_def)

lemma timers_connectRcon [simp]: "timers (connectRcon s) = timers s"
  by (simp add: connectRcon_def Let_def)

lemma timers_timeout_body [simp]: "timers (timeout_body k s) = timers s"
  by (simp add: timeout_body_def)

lemma timers_run_timer [simp]: "timers (run_timer a s) = timers s"
  by (cases a) simp_all

lemma callback_fields [simp]:
  "rconReady (callback k out s) = rconReady s"
  "rcon (callback k out s) = rcon s"
  "conns (callback k out s) = conns s"
  "now (callback k out s) = now s"
  "sent (callback k out s) = sent s"
  "console (callback k out s) = console s"
  "length (calls (callback k out s)) = length (calls s)"
  by (simp_all add: callback_def)

lemma set_handled_fields [simp]:
  "rconReady (set_handled k s) = rconReady s"
  "rcon (set_handled k s) = rcon s"
  "conns (set_handled k s) = conns s"
  "now (set_handled k s) = now s"
  "sent (set_handled k s) = sent s"
  "console (set_handled k s) = console s"
  "length (calls (set_handled k s)) = length (calls s)"
  by (simp_all add: set_handled_def)

lemma update_conn_fields [simp]:
  "rconReady (update_conn c f s) = rconReady s"
  "rcon (update_conn c f s) = rcon s"
  "calls (update_conn c f s) = calls s"
  "now (update_conn c f s) = now s"
  "sent (update_conn c f s) = sent s"
  "console (update_conn c f s) = console s"
  "length (conns (update_conn c f s)) = length (conns s)"
  by (simp_all add: update_conn_def)

lemma setTimeout_fields [simp]:
  "rconReady (setTimeout a ms s) = rconReady s"
  "rcon (setTimeout a ms s) = rcon s"
  "conns (setTimeout a ms s) = conns s"
  "calls (setTimeout a ms s) = calls s"
  "now (setTimeout a ms s) = now s"
  "sent (setTimeout a ms s) = sent s"
  "console (setTimeout a ms s) = console s"
  "timers (setTimeout a ms s) = timers s @ [(now s + ms, a)]"
  by (simp_all add: setTimeout_def)

lemma log_fields [simp]:
  "rconReady (log line s) = rconReady s"
  "rcon (log line s) = rcon s"
  "conns (log line s) = conns s"
  "calls (log line s) = calls s"
  "timers (log line s) = timers s"
  "now (log line s) = now s"
  "sent (log line s) = sent s"
  "console (log line s) = console s @ [line]"
  by (simp_all add: log_def)

lemma connectRcon_fields [simp]:
  "rconReady (connectRcon s) = rconReady s"
  "rcon (connectRcon s) = length (conns s)"
  "calls (connectRcon s) = calls s"
  "now (connectRcon s) = now s"
  "sent (connectRcon s) = sent s"
  "console (connectRcon s) = console s"
  "length (conns (connectRcon s)) = Suc (length (conns s))"
  by (simp_all add: connectRcon_def Let_def)

lemma is_handled_update_conn [simp]: "is_handled k (update_conn c f s) = is_handled k s"
  by (simp add: is_handled_def)

subsection \<open>An invocation is resolved at most once by events and timers\<close>

lemma settles_refl [simp]: "settles r r"
  by (simp add: settles_def)

lemma settles_trans: "settles r r' \<Longrightarrow> settles r' r'' \<Longrightarrow> settles r r''"
  by (auto simp: settles_def)

lemma calls_settle_refl [simp]: "calls_settle s s"
  by (simp add: calls_settle_def)

lemma calls_settle_same: "calls s' = calls s \<Longrightarrow> calls_settle s s'"
  by (simp add: calls_settle_def)

lemma calls_settle_trans:
  "calls_settle s s' \<Longrightarrow> calls_settle s' s'' \<Longrightarrow> calls_settle s s''"
  unfolding calls_settle_def
  by (metis settles_trans)

lemma calls_grow_refl [simp]: "calls_grow s s"
  by (simp add: calls_grow_def)

lemma calls_grow_trans:
  "calls_grow s s' \<Longrightarrow> calls_grow s' s'' \<Longrightarrow> calls_grow s s''"
  unfolding calls_grow_def
  by (meson settles_trans le_trans less_le_trans)

lemma calls_settle_grow: "calls_settle s s' \<Longrightarrow> calls_grow s s'"
  by (simp add: calls_settle_def calls_grow_def)

lemma resolve_settles:
  "\<not> is_handled k s \<Longrightarrow> calls_settle s (callback k out (set_handled k s))"
  by (auto simp: calls_settle_def settles_def is_handled_def callback_def set_handled_def
        nth_list_update)

lemma run_handler_settle: "calls_settle s (run_handler h sig s)"
  by (cases "(h, sig, s)" rule: run_handler.cases)
     (auto simp: resolve_settles calls_settle_same)

lemma invoke_settle: "calls_settle s (invoke c sig l s)"
proof -
  let ?s' = "if snd (snd l) then update_conn c (\<lambda>e. e\<lparr>listeners := remove1 l (listeners e)\<rparr>) s else s"
  have "calls ?s' = calls s" by simp
  then have "calls_settle s ?s'" by (rule calls_settle_same)
  moreover have "calls_settle ?s' (run_handler (fst (snd l)) sig ?s')"
    by (rule run_handler_settle)
  ultimately show ?thesis
    unfolding invoke_def by (rule calls_settle_trans)
qed

lemma invoke_all_settle: "calls_settle s (invoke_all c sig ls s)"
proof (induction ls arbitrary: s)
  case Nil
  show ?case by simp
next
  case (Cons l ls)
  show ?case
    using calls_settle_trans [OF invoke_settle Cons.IH] by simp
qed

lemma emit_settle: "calls_settle s (emit c sig s)"
  by (simp add: emit_def invoke_all_settle)

lemma callback_update_conn:
  "callback k out (update_conn c f s) = update_conn c f (callback k out s)"
  by (simp add: callback_def update_conn_def)

lemma calls_settle_cong: "calls s'' = calls s' \<Longrightarrow> calls_settle s s' \<Longrightarrow> calls_settle s s''"
  by (simp add: calls_settle_def)

lemma timeout_body_settle: "calls_settle s (timeout_body k s)"
proof (cases "is_handled k s")
  case True
  then show ?thesis by (simp add: timeout_body_def)
next
  case False
  have "calls_settle s (callback k (Failed (Error ''RCON command timeout'')) (set_handled k s))"
    using False by (rule resolve_settles)
  then show ?thesis
    using False
    by (simp add: timeout_body_def callback_update_conn calls_settle_cong)
qed

lemma run_timer_settle: "calls_settle s (run_timer a s)"
  by (cases a) (simp_all add: timeout_body_settle calls_settle_same)

lemma advance_to_settle: "calls_settle s (advance_to t s)"
proof (induction t s rule: advance_to.induct)
  case (1 t s)
  show ?case
  proof (cases "timers s")
    case Nil
    then show ?thesis
      by (simp add: advance_to.simps [of t s] calls_settle_same)
  next
    case (Cons x rest)
    obtain due a where x: "x = (due, a)" by (cases x)
    show ?thesis
    proof (cases "due \<le> t")
      case False
      then show ?thesis
        using Cons x by (simp add: advance_to.simps [of t s] calls_settle_same)
    next
      case True
      let ?s1 = "s\<lparr>timers := rest, now := max (now s) due\<rparr>"
      have a1: "calls_settle s ?s1" by (simp add: calls_settle_same)
      have a2: "calls_settle ?s1 (run_timer a ?s1)" by (rule run_timer_settle)
      have a3: "calls_settle (run_timer a ?s1) (advance_to t (run_timer a ?s1))"
        using "1.IH" [OF Cons x [symmetric] True] .
      have "advance_to t s = advance_to t (run_timer a ?s1)"
        using Cons x True by (simp add: advance_to.simps [of t s])
      then show ?thesis
        using calls_settle_trans [OF a1 calls_settle_trans [OF a2 a3]] by simp
    qed
  qed
qed

lemma length_calls_sendGamemode [simp]:
  "length (calls (sendGamemode username thrown s)) = Suc (length (calls s))"
  by (simp add: sendGamemode_def Let_def split: option.splits)

lemma old_calls_sendGamemode:
  "k < length (calls s) \<Longrightarrow> calls (sendGamemode username thrown s) ! k = calls s ! k"
  by (simp add: sendGamemode_def Let_def callback_def nth_append split: option.splits)

lemma sendGamemode_grow: "calls_grow s (sendGamemode username thrown s)"
  by (simp add: calls_grow_def old_calls_sendGamemode)

lemma step_grow: "calls_grow s (step e s)"
  by (cases e)
     (simp_all add: emit_settle sendGamemode_grow advance_to_settle calls_settle_grow)

lemma run_grow: "calls_grow s (run es s)"
proof (induction es arbitrary: s)
  case Nil
  show ?case by simp
next
  case (Cons e es)
  show ?case
    using calls_grow_trans [OF step_grow Cons.IH] by simp
qed

lemma handled_stays:
  assumes "k < length (calls s)" and "handled (calls s ! k)"
  shows "calls (run es s) ! k = calls s ! k"
  using run_grow [of s es] assms by (auto simp: calls_grow_def settles_def)

subsection \<open>Pending commands\<close>

lemma filter_length_mono:
  "(\<And>x. x \<in> set xs \<Longrightarrow> P x \<Longrightarrow> Q x) \<Longrightarrow> length (filter P xs) \<le> length (filter Q xs)"
  by (induction xs) auto

lemma settle_pending:
  assumes "calls_settle s s'"
  shows "length (pending s') \<le> length (pending s)"
proof -
  have len: "length (calls s') = length (calls s)"
    using assms by (simp add: calls_settle_def)
  have "results (calls s ! k) = []"
    if "k \<in> set [0..<length (calls s)]" and "results (calls s' ! k) = []" for k
    using assms that by (auto simp: calls_settle_def settles_def)
  then show ?thesis
    unfolding pending_def len by (rule filter_length_mono)
qed

lemma sendGamemode_pending:
  assumes "pending s = []"
  shows "length (pending (sendGamemode username thrown s)) \<le> 1"
proof -
  let ?s' = "sendGamemode username thrown s"
  let ?n = "length (calls s)"
  have "filter (\<lambda>k. results (calls ?s' ! k) = []) [0..<?n]
          = filter (\<lambda>k. results (calls s ! k) = []) [0..<?n]"
    by (rule filter_cong) (simp_all add: old_calls_sendGamemode)
  then have "filter (\<lambda>k. results (calls ?s' ! k) = []) [0..<?n] = []"
    using assms by (simp add: pending_def)
  then show ?thesis
    by (simp add: pending_def)
qed

lemma serialized_pending:
  "length (pending s) \<le> 1 \<Longrightarrow> serialized es s \<Longrightarrow> length (pending (run es s)) \<le> 1"
proof (induction es arbitrary: s)
  case Nil
  then show ?case by simp
next
  case (Cons e es)
  show ?case
  proof (cases e)
    case (Ev_emit c sig)
    have "length (pending (step e s)) \<le> 1"
      using settle_pending [OF emit_settle, of c sig s] Cons.prems(1) Ev_emit by simp
    then show ?thesis
      using Cons.IH [of "step e s"] Cons.prems(2) Ev_emit by simp
  next
    case (Ev_call username thrown)
    have "length (pending (step e s)) \<le> 1"
      using sendGamemode_pending Cons.prems(2) Ev_call by simp
    then show ?thesis
      using Cons.IH [of "step e s"] Cons.prems(2) Ev_call by simp
  next
    case (Ev_advance d)
    have "length (pending (step e s)) \<le> 1"
      using settle_pending [OF advance_to_settle, of "now s + d" s] Cons.prems(1) Ev_advance
      by simp
    then show ?thesis
      using Cons.IH [of "step e s"] Cons.prems(2) Ev_advance by simp
  qed
qed

subsection \<open>The invariant on connection objects\<close>

lemma filter_remove1_other: "\<not> P l \<Longrightarrow> filter P (remove1 l xs) = filter P xs"
  by (induction xs) auto

lemma filter_remove_first_other:
  "n \<noteq> m \<Longrightarrow> filter (\<lambda>l. fst l = m) (remove_first n h ls) = filter (\<lambda>l. fst l = m) ls"
  by (induction n h ls rule: remove_first.induct) auto

lemma end_listeners_once [simp]:
  "n \<noteq> N_end \<Longrightarrow> end_listeners (once n h e) = end_listeners e"
  by (simp add: end_listeners_def once_def)

lemma end_listeners_removeListener [simp]:
  "n \<noteq> N_end \<Longrightarrow> end_listeners (removeListener n h e) = end_listeners e"
  by (simp add: end_listeners_def removeListener_def filter_remove_first_other
        rev_filter [symmetric])

lemma end_listeners_remove1:
  "fst l \<noteq> N_end \<Longrightarrow> end_listeners (e\<lparr>listeners := remove1 l (listeners e)\<rparr>) = end_listeners e"
  by (simp add: end_listeners_def filter_remove1_other)

lemma conns_ok_update_conn:
  assumes "conns_ok s" and "\<And>e. end_listeners (f e) = end_listeners e"
  shows "conns_ok (update_conn c f s)"
proof -
  have "end_listeners e = [(N_end, H_end, False)]"
    if "e \<in> set ((conns s)[c := f (conns s ! c)])" and "c < length (conns s)" for e
  proof -
    from that(1) have "e = f (conns s ! c) \<or> e \<in> set (conns s)"
      using set_update_subset_insert [of "conns s" c "f (conns s ! c)"] by auto
    then show ?thesis
      using assms that(2) by (auto simp: conns_ok_def)
  qed
  then show ?thesis
    using assms(1) by (auto simp: conns_ok_def update_conn_def)
qed

lemma conns_ok_cong:
  "conns s' = conns s \<Longrightarrow> rcon s' = rcon s \<Longrightarrow> conns_ok s \<Longrightarrow> conns_ok s'"
  by (simp add: conns_ok_def)

lemma run_handler_conns [simp]:
  "conns (run_handler h sig s) = conns s" "rcon (run_handler h sig s) = rcon s"
  by (cases "(h, sig, s)" rule: run_handler.cases; simp)+

lemma conns_ok_invoke:
  assumes "conns_ok s" and "snd (snd l) \<Longrightarrow> fst l \<noteq> N_end"
  shows "conns_ok (invoke c sig l s)"
proof -
  let ?s' = "if snd (snd l) then update_conn c (\<lambda>e. e\<lparr>listeners := remove1 l (listeners e)\<rparr>) s else s"
  have "conns_ok ?s'"
    using assms by (auto intro: conns_ok_update_conn simp: end_listeners_remove1)
  then show ?thesis
    unfolding invoke_def by (rule conns_ok_cong [rotated 2]) simp_all
qed

lemma conns_ok_invoke_all:
  assumes "conns_ok s" and "\<And>l. l \<in> set ls \<Longrightarrow> snd (snd l) \<Longrightarrow> fst l \<noteq> N_end"
  shows "conns_ok (invoke_all c sig ls s)"
  using assms
proof (induction ls arbitrary: s)
  case Nil
  then show ?case by simp
next
  case (Cons l ls)
  have "conns_ok (invoke c sig l s)"
    using Cons.prems by (intro conns_ok_invoke) simp_all
  then show ?case
    using Cons.IH [of "invoke c sig l s"] Cons.prems(2) by simp
qed

lemma conns_ok_emit:
  assumes "conns_ok s"
  shows "conns_ok (emit c sig s)"
proof (cases "c < length (conns s)")
  case False
  then show ?thesis using assms by (simp add: emit_def)
next
  case True
  let ?ls = "filter (\<lambda>l. fst l = name_of sig) (listeners (conns s ! c))"
  have e: "end_listeners (conns s ! c) = [(N_end, H_end, False)]"
    using assms True by (simp add: conns_ok_def)
  have "fst l \<noteq> N_end" if "l \<in> set ?ls" and "snd (snd l)" for l
  proof
    assume "fst l = N_end"
    with that(1) have "l \<in> set (end_listeners (conns s ! c))"
      by (simp add: end_listeners_def)
    with e that(2) show False by simp
  qed
  then have "conns_ok (invoke_all c sig ?ls s)"
    using assms by (intro conns_ok_invoke_all) blast+
  then show ?thesis using True by (simp add: emit_def)
qed

lemma conns_ok_connectRcon: "conns_ok (connectRcon s) = (\<forall>e\<in>set (conns s). end_listeners e = [(N_end, H_end, False)])"
  by (auto simp: conns_ok_def connectRcon_def Let_def on_def end_listeners_def)

lemma conns_ok_connectRcon': "conns_ok s \<Longrightarrow> conns_ok (connectRcon s)"
  unfolding conns_ok_connectRcon by (simp add: conns_ok_def)

lemma conns_ok_calls_only:
  "conns_ok (callback k out s) = conns_ok s" "conns_ok (set_handled k s) = conns_ok s"
  "conns_ok (setTimeout a ms s) = conns_ok s"
  by (simp_all add: conns_ok_def)

lemma conns_ok_timeout_body: "conns_ok s \<Longrightarrow> conns_ok (timeout_body k s)"
  by (simp add: timeout_body_def conns_ok_calls_only conns_ok_update_conn)

lemma conns_ok_run_timer: "conns_ok s \<Longrightarrow> conns_ok (run_timer a s)"
  by (cases a) (simp_all add: conns_ok_timeout_body conns_ok_connectRcon')

lemma conns_ok_advance_to: "conns_ok s \<Longrightarrow> conns_ok (advance_to t s)"
proof (induction t s rule: advance_to.induct)
  case (1 t s)
  show ?case
  proof (cases "timers s")
    case Nil
    then show ?thesis
      using "1.prems" by (simp add: advance_to.simps [of t s] conns_ok_def)
  next
    case (Cons x rest)
    obtain due a where x: "x = (due, a)" by (cases x)
    show ?thesis
    proof (cases "due \<le> t")
      case False
      then show ?thesis
        using Cons x "1.prems" by (simp add: advance_to.simps [of t s] conns_ok_def)
    next
      case True
      let ?s1 = "s\<lparr>timers := rest, now := max (now s) due\<rparr>"
      have "conns_ok ?s1" using "1.prems" by (simp add: conns_ok_def)
      then have "conns_ok (run_timer a ?s1)" by (rule conns_ok_run_timer)
      then have "conns_ok (advance_to t (run_timer a ?s1))"
        using "1.IH" [OF Cons x [symmetric] True] by simp
      then show ?thesis
        using Cons x True by (simp add: advance_to.simps [of t s])
    qed
  qed
qed

lemma conns_ok_sendGamemode: "conns_ok s \<Longrightarrow> conns_ok (sendGamemode username thrown s)"
proof -
  assume a: "conns_ok s"
  have b: "conns_ok (s\<lparr>calls := cs\<rparr>)" for cs
    using a by (simp add: conns_ok_def)
  have c: "conns_ok s' \<Longrightarrow> conns_ok (s'\<lparr>sent := x\<rparr>)" for s' x
    by (simp add: conns_ok_def)
  show ?thesis
    by (simp add: sendGamemode_def Let_def conns_ok_calls_only b c conns_ok_update_conn
          split: option.splits)
qed

lemma conns_ok_step: "conns_ok s \<Longrightarrow> conns_ok (step e s)"
  by (cases e) (simp_all add: conns_ok_emit conns_ok_sendGamemode conns_ok_advance_to)

lemma conns_ok_run: "conns_ok s \<Longrightarrow> conns_ok (run es s)"
  by (induction es arbitrary: s) (simp_all add: conns_ok_step)

lemma conns_ok_init: "conns_ok init"
  by (simp add: init_def conns_ok_connectRcon boot_def)

lemma conns_ok_reachable: "conns_ok (run es init)"
  by (rule conns_ok_run) (rule conns_ok_init)

subsection \<open>What an emitted event resolves and what it leaves alone\<close>

lemma resolve_calls:
  "k < length (calls s) \<Longrightarrow>
   calls (callback k out (set_handled k s)) = (calls s)[k := settle out (calls s ! k)]"
  by (simp add: callback_def set_handled_def settle_def)

lemma run_handler_calls:
  "calls (run_handler h sig s) =
     (case settled_by h sig of
        None \<Rightarrow> calls s
      | Some (k, out) \<Rightarrow>
          if k < length (calls s) \<and> \<not> handled (calls s ! k)
          then (calls s)[k := settle out (calls s ! k)]
          else calls s)"
proof (cases "(h, sig, s)" rule: run_handler.cases)
  case (5 k resp s')
  then show ?thesis
    by (auto simp: is_handled_def settle_def callback_def set_handled_def)
next
  case (6 k err s')
  then show ?thesis
    by (auto simp: is_handled_def settle_def callback_def set_handled_def)
qed simp_all

lemma invoke_calls: "calls (invoke c sig l s) = calls (run_handler (fst (snd l)) sig s)"
  by (auto simp: invoke_def run_handler_calls split: option.splits)

lemma settled_by_same_signal:
  "settled_by h sig = Some (k, out) \<Longrightarrow> settled_by h' sig = Some (k', out') \<Longrightarrow> out' = out"
  by (cases "(h, sig)" rule: settled_by.cases; cases "(h', sig)" rule: settled_by.cases) auto

lemma invoke_all_keeps_handled:
  assumes "k < length (calls s)" and "handled (calls s ! k)"
  shows "calls (invoke_all c sig ls s) ! k = calls s ! k"
  using invoke_all_settle [of s c sig ls] assms
  by (auto simp: calls_settle_def settles_def)

lemma length_calls_invoke [simp]: "length (calls (invoke c sig l s)) = length (calls s)"
  using invoke_settle [of s c sig l] by (simp add: calls_settle_def)

lemma invoke_all_settles:
  assumes "l \<in> set ls" and "settled_by (fst (snd l)) sig = Some (k, out)"
    and "k < length (calls s)" and "\<not> handled (calls s ! k)"
  shows "calls (invoke_all c sig ls s) ! k = settle out (calls s ! k)"
  using assms
proof (induction ls arbitrary: s)
  case Nil
  then show ?case by simp
next
  case (Cons l' ls)
  let ?s' = "invoke c sig l' s"
  show ?case
  proof (cases "\<exists>out'. settled_by (fst (snd l')) sig = Some (k, out')")
    case True
    then obtain out' where o: "settled_by (fst (snd l')) sig = Some (k, out')" by blast
    have "out' = out"
      using settled_by_same_signal [OF Cons.prems(2) o] .
    then have now_k: "calls ?s' ! k = settle out (calls s ! k)"
      using o Cons.prems(3,4) by (simp add: invoke_calls run_handler_calls)
    then have "handled (calls ?s' ! k)" by (simp add: settle_def)
    then have "calls (invoke_all c sig ls ?s') ! k = calls ?s' ! k"
      using Cons.prems(3) by (intro invoke_all_keeps_handled) simp_all
    then show ?thesis using now_k by simp
  next
    case False
    then have same: "calls ?s' ! k = calls s ! k"
      using Cons.prems(3)
      by (auto simp: invoke_calls run_handler_calls split: option.splits)
    from False Cons.prems(1,2) have "l \<in> set ls" by auto
    then have "calls (invoke_all c sig ls ?s') ! k = settle out (calls ?s' ! k)"
      using Cons.prems(2,3,4) same by (intro Cons.IH) simp_all
    then show ?thesis using same by simp
  qed
qed

lemma emit_settles:
  assumes "c < length (conns s)" and "(name_of sig, h, b) \<in> set (listeners (conns s ! c))"
    and "settled_by h sig = Some (k, out)"
    and "k < length (calls s)" and "\<not> handled (calls s ! k)"
  shows "calls (emit c sig s) ! k = settle out (calls s ! k)"
proof -
  let ?ls = "filter (\<lambda>l. fst l = name_of sig) (listeners (conns s ! c))"
  have "(name_of sig, h, b) \<in> set ?ls" using assms(2) by simp
  then have "calls (invoke_all c sig ?ls s) ! k = settle out (calls s ! k)"
    using assms(3,4,5) by (intro invoke_all_settles [where l = "(name_of sig, h, b)"]) simp_all
  then show ?thesis using assms(1) by (simp add: emit_def)
qed

lemma session_same_refl [simp]: "session_same s s"
  by (simp add: session_same_def)

lemma session_same_trans:
  "session_same s s' \<Longrightarrow> session_same s' s'' \<Longrightarrow> session_same s s''"
  by (simp add: session_same_def)

lemma connect_calls_update_conn:
  assumes "\<And>e. connect_calls (f e) = connect_calls e"
  shows "map connect_calls (conns (update_conn c f s)) = map connect_calls (conns s)"
  by (simp add: update_conn_def map_update assms list_update_same_conv)

lemma connect_calls_listeners [simp]:
  "connect_calls (removeListener n h e) = connect_calls e"
  "connect_calls (once n h e) = connect_calls e"
  "connect_calls (on n h e) = connect_calls e"
  by (simp_all add: removeListener_def once_def on_def)

lemma session_same_update_conn:
  "(\<And>e. connect_calls (f e) = connect_calls e) \<Longrightarrow> session_same s (update_conn c f s)"
  by (simp add: session_same_def connect_calls_update_conn)

lemma session_same_run_handler:
  "name_of sig = N_response \<or> name_of sig = N_error \<Longrightarrow> session_same s (run_handler h sig s)"
  by (cases "(h, sig, s)" rule: run_handler.cases) (auto simp: session_same_def)

lemma session_same_invoke:
  assumes "name_of sig = N_response \<or> name_of sig = N_error"
  shows "session_same s (invoke c sig l s)"
proof -
  let ?s' = "if snd (snd l) then update_conn c (\<lambda>e. e\<lparr>listeners := remove1 l (listeners e)\<rparr>) s else s"
  have "session_same s ?s'"
    by (simp add: session_same_update_conn)
  moreover have "session_same ?s' (run_handler (fst (snd l)) sig ?s')"
    using assms by (rule session_same_run_handler)
  ultimately show ?thesis
    unfolding invoke_def by (rule session_same_trans)
qed

lemma session_same_invoke_all:
  assumes "name_of sig = N_response \<or> name_of sig = N_error"
  shows "session_same s (invoke_all c sig ls s)"
proof (induction ls arbitrary: s)
  case Nil
  show ?case by simp
next
  case (Cons l ls)
  show ?case
    using session_same_trans [OF session_same_invoke [OF assms] Cons.IH] by simp
qed

lemma session_same_emit:
  "name_of sig = N_response \<or> name_of sig = N_error \<Longrightarrow> session_same s (emit c sig s)"
  by (simp add: emit_def session_same_invoke_all)

lemma emit_End:
  assumes "conns_ok s" and "c < length (conns s)"
  shows "emit c End s = run_handler H_end End s"
proof -
  have "conns s ! c \<in> set (conns s)" using assms(2) by simp
  then have "end_listeners (conns s ! c) = [(N_end, H_end, False)]"
    using assms(1) by (simp add: conns_ok_def)
  then show ?thesis
    using assms(2) by (simp add: emit_def end_listeners_def invoke_def)
qed

lemma sendGamemode_sent_ok:
  assumes "rconReady s" and "rcon s < length (conns s)"
  shows "conns (sendGamemode username None s) =
           (conns s)[rcon s := once N_error (OnError (length (calls s)))
                                (once N_response (OnResponse (length (calls s))) (conns s ! rcon s))]"
    and "calls (sendGamemode username None s) = calls s @ [\<lparr>handled = False, results = []\<rparr>]"
  using assms by (simp_all add: sendGamemode_def Let_def update_conn_def setTimeout_def)

subsection \<open>The invariant on timers\<close>

lemma sched_refl [simp]: "sched s s"
  by (simp add: sched_def)

lemma sched_trans:
  assumes "sched s s'" and "sched s' s''"
  shows "sched s s''"
proof -
  from assms(1) obtain new where
    n: "timers s' = timers s @ new"
       "\<forall>x\<in>set new. fst x = now s + 5000 \<and> (\<forall>j. snd x = T_timeout j \<longrightarrow> j < length (calls s'))"
    and le: "now s' = now s" "length (calls s) \<le> length (calls s')"
    by (auto simp: sched_def)
  from assms(2) obtain new' where
    n': "timers s'' = timers s' @ new'"
       "\<forall>x\<in>set new'. fst x = now s' + 5000 \<and> (\<forall>j. snd x = T_timeout j \<longrightarrow> j < length (calls s''))"
    and le': "now s'' = now s'" "length (calls s') \<le> length (calls s'')"
    by (auto simp: sched_def)
  have "timers s'' = timers s @ (new @ new')"
    using n(1) n'(1) by simp
  moreover have "\<forall>x\<in>set (new @ new'). fst x = now s + 5000 \<and>
      (\<forall>j. snd x = T_timeout j \<longrightarrow> j < length (calls s''))"
    using n(2) n'(2) le le' by fastforce
  ultimately show ?thesis
    unfolding sched_def using le le' by (metis le_trans)
qed

lemma sched_same:
  "now s' = now s \<Longrightarrow> length (calls s') = length (calls s) \<Longrightarrow> timers s' = timers s \<Longrightarrow> sched s s'"
  by (simp add: sched_def)

lemma length_calls_run_handler [simp]:
  "length (calls (run_handler h sig s)) = length (calls s)"
  using run_handler_settle [of s h sig] by (simp add: calls_settle_def)

lemma length_calls_timeout_body [simp]:
  "length (calls (timeout_body k s)) = length (calls s)"
  using timeout_body_settle [of s k] by (simp add: calls_settle_def)

lemma length_calls_run_timer [simp]:
  "length (calls (run_timer a s)) = length (calls s)"
  using run_timer_settle [of s a] by (simp add: calls_settle_def)

lemma now_run_handler [simp]: "now (run_handler h sig s) = now s"
  by (cases "(h, sig, s)" rule: run_handler.cases) auto

lemma timers_run_handler:
  "timers (run_handler h sig s) =
     (if h = H_end \<and> sig = End then timers s @ [(now s + 5000, T_connectRcon)] else timers s)"
  by (cases "(h, sig, s)" rule: run_handler.cases) auto

lemma sched_run_handler: "sched s (run_handler h sig s)"
  by (simp add: sched_def timers_run_handler)

lemma sched_invoke: "sched s (invoke c sig l s)"
proof -
  let ?s' = "if snd (snd l) then update_conn c (\<lambda>e. e\<lparr>listeners := remove1 l (listeners e)\<rparr>) s else s"
  have "sched s ?s'" by (simp add: sched_same)
  moreover have "sched ?s' (run_handler (fst (snd l)) sig ?s')"
    by (rule sched_run_handler)
  ultimately show ?thesis
    unfolding invoke_def by (rule sched_trans)
qed

lemma sched_invoke_all: "sched s (invoke_all c sig ls s)"
proof (induction ls arbitrary: s)
  case Nil
  show ?case by simp
next
  case (Cons l ls)
  show ?case
    using sched_trans [OF sched_invoke Cons.IH] by simp
qed

lemma sched_emit: "sched s (emit c sig s)"
  by (simp add: emit_def sched_invoke_all)

lemma sched_sendGamemode: "sched s (sendGamemode username thrown s)"
  by (simp add: sched_def sendGamemode_def Let_def split: option.splits)

lemma timers_ok_sched:
  assumes "timers_ok s" and "sched s s'"
  shows "timers_ok s'"
proof -
  from assms(2) obtain new where
    n: "timers s' = timers s @ new"
       "\<forall>x\<in>set new. fst x = now s + 5000 \<and> (\<forall>j. snd x = T_timeout j \<longrightarrow> j < length (calls s'))"
    and le: "now s' = now s" "length (calls s) \<le> length (calls s')"
    by (auto simp: sched_def)
  show ?thesis
    unfolding timers_ok_def n(1)
    using assms(1) n(2) le by (fastforce simp: timers_ok_def)
qed

lemma now_run_timer [simp]: "now (run_timer a s) = now s"
  by (cases a) (simp_all add: timeout_body_def)

lemma timers_ok_pop:
  assumes "timers_ok s" and "timers s = (due, a) # rest"
  shows "timers_ok (run_timer a (s\<lparr>timers := rest, now := max (now s) due\<rparr>))"
proof -
  have "fst x \<le> max (now s) due + 5000 \<and> (\<forall>j. snd x = T_timeout j \<longrightarrow> j < length (calls s))"
    if "x \<in> set rest" for x
  proof -
    from that assms(2) have "x \<in> set (timers s)" by simp
    with assms(1) have "fst x \<le> now s + 5000 \<and> (\<forall>j. snd x = T_timeout j \<longrightarrow> j < length (calls s))"
      unfolding timers_ok_def by blast
    then show ?thesis by auto
  qed
  then show ?thesis
    by (simp add: timers_ok_def)
qed

lemma timers_ok_advance_to: "timers_ok s \<Longrightarrow> timers_ok (advance_to t s)"
proof (induction t s rule: advance_to.induct)
  case (1 t s)
  show ?case
  proof (cases "timers s")
    case Nil
    then show ?thesis
      by (simp add: advance_to.simps [of t s] timers_ok_def)
  next
    case (Cons x rest)
    obtain due a where x: "x = (due, a)" by (cases x)
    show ?thesis
    proof (cases "due \<le> t")
      case False
      have "timers_ok (s\<lparr>now := max (now s) t\<rparr>)"
        using "1.prems" by (fastforce simp: timers_ok_def)
      then show ?thesis
        using Cons x False by (simp add: advance_to.simps [of t s])
    next
      case True
      let ?s1 = "s\<lparr>timers := rest, now := max (now s) due\<rparr>"
      have "timers_ok (run_timer a ?s1)"
        using "1.prems" Cons x by (intro timers_ok_pop) simp_all
      then have "timers_ok (advance_to t (run_timer a ?s1))"
        using "1.IH" [OF Cons x [symmetric] True] by simp
      then show ?thesis
        using Cons x True by (simp add: advance_to.simps [of t s])
    qed
  qed
qed

lemma timers_ok_step: "timers_ok s \<Longrightarrow> timers_ok (step e s)"
  by (cases e)
     (auto intro: timers_ok_sched sched_emit sched_sendGamemode timers_ok_advance_to)

lemma timers_ok_run: "timers_ok s \<Longrightarrow> timers_ok (run es s)"
  by (induction es arbitrary: s) (simp_all add: timers_ok_step)

lemma timers_ok_reachable: "timers_ok (run es init)"
  by (rule timers_ok_run) (simp add: timers_ok_def init_def boot_def)

lemma now_advance_to: "now (advance_to t s) = max (now s) t"
proof (induction t s rule: advance_to.induct)
  case (1 t s)
  show ?case
  proof (cases "timers s")
    case Nil
    then show ?thesis by (simp add: advance_to.simps [of t s])
  next
    case (Cons x rest)
    obtain due a where x: "x = (due, a)" by (cases x)
    show ?thesis
    proof (cases "due \<le> t")
      case False
      then show ?thesis using Cons x by (simp add: advance_to.simps [of t s])
    next
      case True
      then show ?thesis
        using Cons x "1.IH" [OF Cons x [symmetric] True]
        by (simp add: advance_to.simps [of t s])
    qed
  qed
qed

subsection \<open>A command waiting for its timeout\<close>

lemma invoke_all_calls_quiet:
  assumes "\<And>h. settled_by h sig = None"
  shows "calls (invoke_all c sig ls s) = calls s"
  by (induction ls arbitrary: s) (simp_all add: invoke_calls run_handler_calls assms)

lemma emit_calls_quiet:
  "sig = Auth \<or> sig = End \<Longrightarrow> calls (emit c sig s) = calls s"
  by (auto simp: emit_def intro!: invoke_all_calls_quiet)

lemma waiting_sched:
  assumes "waiting D k s" and "sched s s'" and "calls s' ! k = calls s ! k"
  shows "waiting D k s'"
proof -
  from assms(1) obtain pre post where
    t: "timers s = pre @ (D, T_timeout k) # post"
       "\<forall>x\<in>set pre. fst x \<le> D \<and> snd x \<noteq> T_timeout k"
    by (auto simp: waiting_def)
  from assms(2) obtain new where n: "timers s' = timers s @ new"
    by (auto simp: sched_def)
  have "timers s' = pre @ (D, T_timeout k) # (post @ new)"
    using t(1) n by simp
  with t(2) have "\<exists>pre post. timers s' = pre @ (D, T_timeout k) # post \<and>
         (\<forall>x\<in>set pre. fst x \<le> D \<and> snd x \<noteq> T_timeout k)"
    by blast
  moreover have "k < length (calls s')"
    using assms(1,2) by (simp add: waiting_def sched_def)
  ultimately show ?thesis
    using assms(1,3) by (simp add: waiting_def)
qed

lemma timeout_body_calls:
  "k < length (calls s) \<Longrightarrow> \<not> handled (calls s ! k) \<Longrightarrow>
   calls (timeout_body k s) =
     (calls s)[k := settle (Failed (Error ''RCON command timeout'')) (calls s ! k)]"
  by (simp add: timeout_body_def is_handled_def callback_update_conn callback_def
        set_handled_def settle_def)

lemma run_timer_other:
  assumes "a \<noteq> T_timeout k"
  shows "calls (run_timer a s) ! k = calls s ! k"
proof (cases a)
  case T_connectRcon
  then show ?thesis by simp
next
  case (T_timeout j)
  with assms have "j \<noteq> k" by simp
  show ?thesis
  proof (cases "j < length (calls s) \<and> \<not> handled (calls s ! j)")
    case True
    then show ?thesis
      using T_timeout \<open>j \<noteq> k\<close> by (simp add: timeout_body_calls)
  next
    case False
    then have "is_handled j s \<or> \<not> j < length (calls s)"
      by (auto simp: is_handled_def)
    then show ?thesis
      using T_timeout
      by (auto simp: timeout_body_def callback_update_conn callback_def set_handled_def)
  qed
qed

lemma advance_to_keeps_handled:
  assumes "k < length (calls s)" and "handled (calls s ! k)"
  shows "calls (advance_to t s) ! k = calls s ! k"
  using advance_to_settle [of s t] assms by (auto simp: calls_settle_def settles_def)

lemma length_calls_advance_to [simp]: "length (calls (advance_to t s)) = length (calls s)"
  using advance_to_settle [of s t] by (simp add: calls_settle_def)

lemma waiting_advance_to:
  "waiting D k s \<Longrightarrow>
   (if t < D then waiting D k (advance_to t s) else timed_out k (advance_to t s))"
proof (induction t s rule: advance_to.induct)
  case (1 t s)
  from "1.prems" obtain pre post where
    t: "timers s = pre @ (D, T_timeout k) # post"
       "\<forall>x\<in>set pre. fst x \<le> D \<and> snd x \<noteq> T_timeout k"
    and k: "k < length (calls s)" "\<not> handled (calls s ! k)" "results (calls s ! k) = []"
    by (auto simp: waiting_def)
  have stop: "waiting D k (s\<lparr>now := max (now s) t\<rparr>)"
    using "1.prems" by (simp add: waiting_def)
  show ?case
  proof (cases pre)
    case Nil
    then have ts: "timers s = (D, T_timeout k) # post" using t(1) by simp
    show ?thesis
    proof (cases "D \<le> t")
      case False
      then show ?thesis
        using ts stop by (simp add: advance_to.simps [of t s])
    next
      case True
      let ?s1 = "s\<lparr>timers := post, now := max (now s) D\<rparr>"
      let ?s2 = "run_timer (T_timeout k) ?s1"
      have "calls ?s2 = (calls s)[k := settle (Failed (Error ''RCON command timeout'')) (calls s ! k)]"
        using k by (simp add: timeout_body_calls)
      then have out: "timed_out k ?s2"
        using k by (simp add: timed_out_def settle_def)
      then have "calls (advance_to t ?s2) ! k = calls ?s2 ! k"
        by (intro advance_to_keeps_handled) (simp_all add: timed_out_def)
      then have "timed_out k (advance_to t ?s2)"
        using out by (simp add: timed_out_def)
      then show ?thesis
        using ts True by (simp add: advance_to.simps [of t s])
    qed
  next
    case (Cons x pre')
    obtain due a where x: "x = (due, a)" by (cases x)
    have ts: "timers s = (due, a) # (pre' @ (D, T_timeout k) # post)"
      using t(1) Cons x by simp
    have xa: "due \<le> D" "a \<noteq> T_timeout k"
      using t(2) Cons x by auto
    show ?thesis
    proof (cases "due \<le> t")
      case False
      then have "t < D" using xa(1) by simp
      then show ?thesis
        using ts False stop by (simp add: advance_to.simps [of t s])
    next
      case True
      let ?s1 = "s\<lparr>timers := pre' @ (D, T_timeout k) # post, now := max (now s) due\<rparr>"
      let ?s2 = "run_timer a ?s1"
      have "calls ?s2 ! k = calls s ! k"
        using run_timer_other [OF xa(2), of ?s1] by simp
      moreover have "\<forall>x\<in>set pre'. fst x \<le> D \<and> snd x \<noteq> T_timeout k"
        using t(2) Cons by simp
      ultimately have "waiting D k ?s2"
        using k unfolding waiting_def by (simp, blast)
      then have "if t < D then waiting D k (advance_to t ?s2) else timed_out k (advance_to t ?s2)"
        using "1.IH" [OF ts refl True] by simp
      then show ?thesis
        using ts True by (simp add: advance_to.simps [of t s])
    qed
  qed
qed

lemma now_emit [simp]: "now (emit c sig s) = now s"
  using sched_emit [of s c sig] by (simp add: sched_def)

lemma now_sendGamemode [simp]: "now (sendGamemode username thrown s) = now s"
  using sched_sendGamemode [of s username thrown] by (simp add: sched_def)

lemma timed_out_step:
  assumes "timed_out k s"
  shows "timed_out k (step e s)"
  using step_grow [of s e] assms
  by (auto simp: calls_grow_def settles_def timed_out_def)

lemma now_step: "now s \<le> now (step e s)"
  by (cases e) (simp_all add: now_advance_to)

lemma on_time_step:
  assumes "on_time D k s" and "quiet [e]"
  shows "on_time D k (step e s)"
proof (cases "now s < D")
  case False
  then have "timed_out k (step e s)"
    using assms(1) by (simp add: on_time_def timed_out_step)
  moreover have "\<not> now (step e s) < D"
    using False now_step [of s e] by simp
  ultimately show ?thesis by (simp add: on_time_def)
next
  case True
  then have w: "waiting D k s" using assms(1) by (simp add: on_time_def)
  show ?thesis
  proof (cases e)
    case (Ev_emit c sig)
    then have q: "sig = Auth \<or> sig = End"
      using assms(2) by (cases sig) simp_all
    have "waiting D k (emit c sig s)"
      using w sched_emit by (rule waiting_sched) (simp add: emit_calls_quiet q)
    then show ?thesis
      using True Ev_emit by (simp add: on_time_def)
  next
    case (Ev_call username thrown)
    have "waiting D k (sendGamemode username thrown s)"
      using w sched_sendGamemode
      by (rule waiting_sched) (use w in \<open>simp add: waiting_def old_calls_sendGamemode\<close>)
    then show ?thesis
      using True Ev_call by (simp add: on_time_def)
  next
    case (Ev_advance d)
    show ?thesis
      using waiting_advance_to [OF w, of "now s + d"] True Ev_advance
      by (simp add: on_time_def now_advance_to)
  qed
qed

lemma quiet_Cons: "quiet (e # es) \<Longrightarrow> quiet [e] \<and> quiet es"
  by (cases "(e # es)" rule: quiet.cases) simp_all

lemma on_time_run: "on_time D k s \<Longrightarrow> quiet es \<Longrightarrow> on_time D k (run es s)"
proof (induction es arbitrary: s)
  case Nil
  then show ?case by simp
next
  case (Cons e es)
  from quiet_Cons [OF Cons.prems(2)] have q: "quiet [e]" "quiet es" by simp_all
  have "on_time D k (step e s)"
    using Cons.prems(1) q(1) by (rule on_time_step)
  then show ?case
    using Cons.IH q(2) by simp
qed

lemma sendGamemode_waiting:
  assumes "timers_ok s" and "rconReady s"
  shows "waiting (now s + 5000) (length (calls s)) (sendGamemode username None s)"
proof -
  let ?s1 = "sendGamemode username None s"
  have t: "timers ?s1 = timers s @ (now s + 5000, T_timeout (length (calls s))) # []"
    using assms(2) by (simp add: sendGamemode_def Let_def)
  have c: "calls ?s1 ! length (calls s) = \<lparr>handled = False, results = []\<rparr>"
    using assms(2) by (simp add: sendGamemode_def Let_def)
  have p: "\<forall>x\<in>set (timers s). fst x \<le> now s + 5000 \<and> snd x \<noteq> T_timeout (length (calls s))"
    using assms(1) by (fastforce simp: timers_ok_def)
  show ?thesis
    unfolding waiting_def using t c p by (simp, blast)
qed

subsection \<open>The username test\<close>

lemma take_class_eq:
  "take_class n u =
     (length (takeWhile word_char (take n u)),
      drop (length (takeWhile word_char (take n u))) u)"
  by (induction n u rule: take_class.induct) simp_all

lemma username_test_iff:
  "username_test u \<longleftrightarrow> 3 \<le> length u \<and> length u \<le> 16 \<and> (\<forall>c\<in>set u. word_char c)"
proof -
  let ?m = "length (takeWhile word_char (take 16 u))"
  have le: "?m \<le> length (take 16 u)" by (rule length_takeWhile_le)
  have t: "username_test u \<longleftrightarrow> 3 \<le> ?m \<and> length u \<le> ?m"
    by (simp add: username_test_def take_class_eq)
  show ?thesis
  proof
    assume "username_test u"
    with t have m: "3 \<le> ?m" "length u \<le> ?m" by simp_all
    from m(2) le have l16: "length u \<le> 16" by simp
    then have tu: "take 16 u = u" by simp
    with m(2) have "length (takeWhile word_char u) = length u"
      using length_takeWhile_le [of word_char u] by simp
    then have "takeWhile word_char u = u"
      by (metis takeWhile_dropWhile_id length_append add_cancel_right_right length_0_conv
            append_Nil2)
    then have "\<forall>c\<in>set u. word_char c"
      by (metis set_takeWhileD)
    with m l16 tu \<open>takeWhile word_char u = u\<close>
    show "3 \<le> length u \<and> length u \<le> 16 \<and> (\<forall>c\<in>set u. word_char c)"
      by simp
  next
    assume a: "3 \<le> length u \<and> length u \<le> 16 \<and> (\<forall>c\<in>set u. word_char c)"
    then have "take 16 u = u" by simp
    moreover from a have "takeWhile word_char u = u" by simp
    then have "length (takeWhile word_char u) = length u" by (rule arg_cong)
    ultimately show "username_test u"
      using a t by simp
  qed
qed

lemma alphabet_codes:
  "units ''ABCDEFGHIJKLMNOPQRSTUVWXYZabcdefghijklmnopqrstuvwxyz0123456789_'' =
     [65..<91] @ [97..<123] @ [48..<58] @ [95::nat]"
  by code_simp

lemma word_char_alphabet:
  assumes "word_char n"
  shows "n \<in> set (units ''ABCDEFGHIJKLMNOPQRSTUVWXYZabcdefghijklmnopqrstuvwxyz0123456789_'')"
proof -
  have "n \<in> {65..<91} \<union> {97..<123} \<union> {48..<58} \<union> {95}"
    using assms by (auto simp: word_char_def)
  then have "n \<in> set ([65..<91] @ [97..<123] @ [48..<58] @ [95::nat])"
    unfolding set_append set_upt list.set by blast
  then show ?thesis
    unfolding alphabet_codes .
qed

lemma units_narrow: "(\<And>n. n \<in> set u \<Longrightarrow> n < 256) \<Longrightarrow> units (narrow u) = u"
  by (induction u) (simp_all add: units_def narrow_def)

lemma narrow_units: "narrow (units cs) = cs"
  by (induction cs) (simp_all add: narrow_def units_def)

lemma units_append: "units (a @ b) = units a @ units b"
  by (simp add: units_def)

lemma word_char_small: "word_char n \<Longrightarrow> n < 256"
  by (auto simp: word_char_def)

lemma sent_sendGamemode:
  "rconReady s \<Longrightarrow>
   sent (sendGamemode username thrown s) = sent s @ [(rcon s, ''gamemode survival '' @ username)]"
  by (simp add: sendGamemode_def Let_def split: option.splits)

subsection \<open>Firing the timers that are due\<close>

lemma connectRcon_conns: "conns (connectRcon s) = conns s @ [fresh_rcon]"
  by (simp add: connectRcon_def Let_def on_def fresh_rcon_def)

lemma run_timer_clock:
  "run_timer a (s\<lparr>timers := ts, now := n\<rparr>) = (run_timer a s)\<lparr>timers := ts, now := n\<rparr>"
  by (cases a)
     (simp_all add: connectRcon_def Let_def timeout_body_def is_handled_def callback_def
        set_handled_def update_conn_def)

lemma fold_run_timer_clock:
  "fold run_timer as (s\<lparr>timers := ts, now := n\<rparr>) = (fold run_timer as s)\<lparr>timers := ts, now := n\<rparr>"
  by (induction as arbitrary: s) (simp_all add: run_timer_clock)

lemma advance_to_all_due:
  "(\<forall>x\<in>set (timers s). fst x \<le> t) \<Longrightarrow>
   advance_to t s = (fold run_timer (map snd (timers s)) s)\<lparr>timers := [], now := max (now s) t\<rparr>"
proof (induction t s rule: advance_to.induct)
  case (1 t s)
  show ?case
  proof (cases "timers s")
    case Nil
    then show ?thesis
      by (simp add: advance_to.simps [of t s])
  next
    case (Cons x rest)
    obtain due a where x: "x = (due, a)" by (cases x)
    have due: "due \<le> t" using "1.prems" Cons x by simp
    let ?s2 = "run_timer a (s\<lparr>timers := rest, now := max (now s) due\<rparr>)"
    have t2: "timers ?s2 = rest" by simp
    have "\<forall>x\<in>set (timers ?s2). fst x \<le> t"
      using "1.prems" Cons by simp
    then have "advance_to t ?s2 =
        (fold run_timer (map snd (timers ?s2)) ?s2)\<lparr>timers := [], now := max (now ?s2) t\<rparr>"
      using "1.IH" [OF Cons x [symmetric] due] by blast
    also have "\<dots> = (fold run_timer (map snd rest) (run_timer a s))\<lparr>timers := [], now := max (now s) t\<rparr>"
      using due by (simp add: run_timer_clock fold_run_timer_clock max.absorb2 max.coboundedI2)
    finally show ?thesis
      using Cons x due by (simp add: advance_to.simps [of t s])
  qed
qed

lemma advance_to_keeps_last:
  "timers s = pre @ [x] \<Longrightarrow> t < fst x \<Longrightarrow> \<exists>pre'. timers (advance_to t s) = pre' @ [x]"
proof (induction t s arbitrary: pre rule: advance_to.induct)
  case (1 t s)
  show ?case
  proof (cases pre)
    case Nil
    then have "timers s = [x]" using "1.prems"(1) by simp
    then have "timers (advance_to t s) = [] @ [x]"
      using "1.prems"(2) by (cases x) (simp add: advance_to.simps [of t s])
    then show ?thesis by blast
  next
    case (Cons y pre')
    obtain due a where y: "y = (due, a)" by (cases y)
    have ts: "timers s = (due, a) # (pre' @ [x])"
      using "1.prems"(1) Cons y by simp
    show ?thesis
    proof (cases "due \<le> t")
      case False
      then have "timers (advance_to t s) = pre @ [x]"
        using ts "1.prems"(1) by (simp add: advance_to.simps [of t s])
      then show ?thesis by blast
    next
      case True
      let ?s2 = "run_timer a (s\<lparr>timers := pre' @ [x], now := max (now s) due\<rparr>)"
      have "timers ?s2 = pre' @ [x]" by simp
      then have "\<exists>pre'. timers (advance_to t ?s2) = pre' @ [x]"
        using "1.IH" [OF ts refl True] "1.prems"(2) by blast
      then show ?thesis
        using ts True by (simp add: advance_to.simps [of t s])
    qed
  qed
qed

lemma fold_run_timer_conns:
  "length (conns (fold run_timer as s)) =
     length (conns s) + length (filter (\<lambda>a. a = T_connectRcon) as)"
proof (induction as arbitrary: s)
  case Nil
  show ?case by simp
next
  case (Cons a as)
  show ?case
    by (cases a) (simp_all add: Cons.IH timeout_body_def)
qed

lemma fold_run_timer_ready: "rconReady (fold run_timer as s) = rconReady s"
proof (induction as arbitrary: s)
  case Nil
  show ?case by simp
next
  case (Cons a as)
  show ?case
    by (cases a) (simp_all add: Cons.IH timeout_body_def)
qed

subsection \<open>A command listening for its response\<close>

lemma in_remove_first:
  "l \<in> set ls \<Longrightarrow> fst l \<noteq> n \<or> fst (snd l) \<noteq> h \<Longrightarrow> l \<in> set (remove_first n h ls)"
  by (induction n h ls rule: remove_first.induct) auto

lemma in_removeListener:
  "l \<in> set (listeners e) \<Longrightarrow> fst l \<noteq> n \<or> fst (snd l) \<noteq> h \<Longrightarrow>
   l \<in> set (listeners (removeListener n h e))"
  by (simp add: removeListener_def in_remove_first)

lemma in_once: "l \<in> set (listeners e) \<Longrightarrow> l \<in> set (listeners (once n h e))"
  by (simp add: once_def)

lemma listening_update_conn:
  assumes "listening c k s"
    and "\<And>e. (N_response, OnResponse k, True) \<in> set (listeners e) \<Longrightarrow>
              (N_response, OnResponse k, True) \<in> set (listeners (f e))"
  shows "listening c k (update_conn c' f s)"
  using assms by (auto simp: listening_def update_conn_def nth_list_update)

lemma listening_cong: "conns s' = conns s \<Longrightarrow> listening c k s \<Longrightarrow> listening c k s'"
  by (simp add: listening_def)

lemma listening_invoke:
  assumes "listening c k s" and "fst l \<noteq> N_response"
  shows "listening c k (invoke c' sig l s)"
proof -
  let ?s' = "if snd (snd l) then update_conn c' (\<lambda>e. e\<lparr>listeners := remove1 l (listeners e)\<rparr>) s else s"
  have "l \<noteq> (N_response, OnResponse k, True)" using assms(2) by auto
  then have "listening c k ?s'"
    using assms(1) by (auto intro!: listening_update_conn)
  then show ?thesis
    unfolding invoke_def by (rule listening_cong [rotated]) simp
qed

lemma listening_invoke_all:
  assumes "listening c k s" and "\<And>l. l \<in> set ls \<Longrightarrow> fst l \<noteq> N_response"
  shows "listening c k (invoke_all c' sig ls s)"
  using assms
proof (induction ls arbitrary: s)
  case Nil
  then show ?case by simp
next
  case (Cons l ls)
  have "listening c k (invoke c' sig l s)"
    using Cons.prems by (intro listening_invoke) simp_all
  then show ?case
    using Cons.IH [of "invoke c' sig l s"] Cons.prems(2) by simp
qed

lemma listening_emit:
  assumes "listening c k s" and "sig = Auth \<or> sig = End"
  shows "listening c k (emit c' sig s)"
proof (cases "c' < length (conns s)")
  case False
  then show ?thesis using assms(1) by (simp add: emit_def)
next
  case True
  have "listening c k (invoke_all c' sig
          (filter (\<lambda>l. fst l = name_of sig) (listeners (conns s ! c'))) s)"
    using assms by (intro listening_invoke_all) auto
  then show ?thesis using True by (simp add: emit_def)
qed

lemma listening_sendGamemode:
  assumes "listening c k s" and "k < length (calls s)"
  shows "listening c k (sendGamemode username thrown s)"
proof -
  have a: "listening c k (s'\<lparr>calls := cs\<rparr>) = listening c k s'" for s' cs
    by (simp add: listening_def)
  have b: "listening c k (s'\<lparr>sent := x\<rparr>) = listening c k s'" for s' x
    by (simp add: listening_def)
  have c: "listening c k (callback j out s') = listening c k s'" for j out s'
    by (simp add: listening_def)
  have d: "listening c k (setTimeout ac ms s') = listening c k s'" for ac ms s'
    by (simp add: listening_def)
  have ne: "OnResponse (length (calls s)) \<noteq> OnResponse k"
    using assms(2) by simp
  show ?thesis
    using assms(1) ne
    by (auto simp: sendGamemode_def Let_def a b c d
          intro!: listening_update_conn in_once in_removeListener split: option.splits)
qed

lemma listening_run_timer:
  assumes "listening c k s" and "a \<noteq> T_timeout k"
  shows "listening c k (run_timer a s)"
proof (cases a)
  case T_connectRcon
  then show ?thesis
    using assms(1) by (simp add: listening_def connectRcon_conns nth_append)
next
  case (T_timeout j)
  with assms(2) have ne: "OnResponse j \<noteq> OnResponse k" by simp
  have c: "listening c k (callback i out s') = listening c k s'" for i out s'
    by (simp add: listening_def)
  have d: "listening c k (set_handled i s') = listening c k s'" for i s'
    by (simp add: listening_def)
  show ?thesis
    using assms(1) ne T_timeout
    by (auto simp: timeout_body_def c d intro!: listening_update_conn in_removeListener)
qed

lemma listening_advance_to:
  "waiting D k s \<Longrightarrow> listening c k s \<Longrightarrow> t < D \<Longrightarrow> listening c k (advance_to t s)"
proof (induction t s rule: advance_to.induct)
  case (1 t s)
  from "1.prems"(1) obtain pre post where
    t: "timers s = pre @ (D, T_timeout k) # post"
       "\<forall>x\<in>set pre. fst x \<le> D \<and> snd x \<noteq> T_timeout k"
    and k: "k < length (calls s)" "\<not> handled (calls s ! k)" "results (calls s ! k) = []"
    by (auto simp: waiting_def)
  have stop: "listening c k (s\<lparr>now := max (now s) t\<rparr>)"
    using "1.prems"(2) by (simp add: listening_def)
  show ?case
  proof (cases pre)
    case Nil
    then have "timers s = (D, T_timeout k) # post" using t(1) by simp
    then show ?thesis
      using stop "1.prems"(3) by (simp add: advance_to.simps [of t s])
  next
    case (Cons x pre')
    obtain due a where x: "x = (due, a)" by (cases x)
    have ts: "timers s = (due, a) # (pre' @ (D, T_timeout k) # post)"
      using t(1) Cons x by simp
    have xa: "a \<noteq> T_timeout k"
      using t(2) Cons x by auto
    show ?thesis
    proof (cases "due \<le> t")
      case False
      then show ?thesis
        using ts stop by (simp add: advance_to.simps [of t s])
    next
      case True
      let ?s1 = "s\<lparr>timers := pre' @ (D, T_timeout k) # post, now := max (now s) due\<rparr>"
      let ?s2 = "run_timer a ?s1"
      have "calls ?s2 ! k = calls s ! k"
        using run_timer_other [OF xa, of ?s1] by simp
      moreover have "\<forall>x\<in>set pre'. fst x \<le> D \<and> snd x \<noteq> T_timeout k"
        using t(2) Cons by simp
      ultimately have w: "waiting D k ?s2"
        using k unfolding waiting_def by (simp, blast)
      have "listening c k ?s1" using "1.prems"(2) by (simp add: listening_def)
      then have "listening c k ?s2" using xa by (rule listening_run_timer)
      then have "listening c k (advance_to t ?s2)"
        using "1.IH" [OF ts refl True w] "1.prems"(3) by simp
      then show ?thesis
        using ts True by (simp add: advance_to.simps [of t s])
    qed
  qed
qed

lemma listening_step:
  assumes "waiting D k s" and "listening c k s" and "quiet [e]" and "now (step e s) < D"
  shows "listening c k (step e s)"
proof (cases e)
  case (Ev_emit c' sig)
  then have "sig = Auth \<or> sig = End"
    using assms(3) by (cases sig) simp_all
  then show ?thesis
    using assms(2) Ev_emit by (simp add: listening_emit)
next
  case (Ev_call username thrown)
  then show ?thesis
    using assms(1,2) by (simp add: listening_sendGamemode waiting_def)
next
  case (Ev_advance d)
  then have "now s + d < D"
    using assms(4) by (simp add: now_advance_to)
  then show ?thesis
    using assms(1,2) Ev_advance by (simp add: listening_advance_to)
qed

lemma listening_run:
  "on_time D k s \<Longrightarrow> listening c k s \<Longrightarrow> quiet es \<Longrightarrow> now (run es s) < D \<Longrightarrow>
   listening c k (run es s)"
proof (induction es arbitrary: s)
  case Nil
  then show ?case by simp
next
  case (Cons e es)
  from quiet_Cons [OF Cons.prems(3)] have q: "quiet [e]" "quiet es" by simp_all
  have mono: "now s' \<le> now (run es' s')" for es' s'
  proof (induction es' arbitrary: s')
    case Nil
    show ?case by simp
  next
    case (Cons e' es')
    show ?case
      using now_step [of s' e'] Cons [of "step e' s'"] by simp
  qed
  have n1: "now (step e s) < D"
    using mono [of "step e s" es] Cons.prems(4) by simp
  then have n0: "now s < D"
    using now_step [of s e] by simp
  then have w: "waiting D k s"
    using Cons.prems(1) by (simp add: on_time_def)
  have "listening c k (step e s)"
    using w Cons.prems(2) q(1) n1 by (rule listening_step)
  moreover have "on_time D k (step e s)"
    using Cons.prems(1) q(1) by (rule on_time_step)
  ultimately show ?case
    using Cons.IH [of "step e s"] q(2) Cons.prems(4) by simp
qed

lemma sendGamemode_listening:
  assumes "rconReady s" and "rcon s < length (conns s)"
  shows "listening (rcon s) (length (calls s)) (sendGamemode username None s)"
  using assms
  by (simp add: listening_def sendGamemode_sent_ok(1) once_def)

section \<open>The claims\<close>

text \<open>
  C1, as stated, fails: the guard of \<^verbatim>\<open>sendGamemode\<close> tests \<^verbatim>\<open>rconReady\<close> only, so after
  authentication two calls in a row leave two Pending Commands, invocations 0 and 1.
\<close>

theorem two_pending_counterexample:
  "pending (run [Ev_emit 0 Auth, Ev_call ''Steve'' None, Ev_call ''Alex01'' None] init) = [0, 1]"
  by code_simp

text \<open>
  C1, amended: along every sequence of events in which \<^verbatim>\<open>sendGamemode\<close> is only called
  while no command is pending (the callers serialize; the correlator does not), at most
  one Pending Command exists at any instant.
\<close>

theorem serialized_single_pending:
  "serialized es init \<Longrightarrow> length (pending (run es init)) \<le> 1"
  by (rule serialized_pending) (simp_all add: pending_def init_def connectRcon_def boot_def)

theorem serialized_single_pending_witness:
  "serialized [Ev_emit 0 Auth, Ev_call ''Steve'' None, Ev_emit 0 (Response ''ok''),
               Ev_call ''Alex01'' None] init \<and>
   length (pending (run [Ev_emit 0 Auth, Ev_call ''Steve'' None, Ev_emit 0 (Response ''ok''),
               Ev_call ''Alex01'' None] init)) \<le> 1"
proof -
  have h: "serialized [Ev_emit 0 Auth, Ev_call ''Steve'' None, Ev_emit 0 (Response ''ok''),
               Ev_call ''Alex01'' None] init"
    by code_simp
  show ?thesis
    using h serialized_single_pending [OF h] by simp
qed

text \<open>
  C2, as stated, fails: a call made while a Pending Command exists is not rejected. With
  invocation 0 pending, the callback of the second call has not been invoked, its command
  has been sent, and its timeout is armed.
\<close>

theorem no_pending_guard_counterexample:
  "pending (run [Ev_emit 0 Auth, Ev_call ''Steve'' None] init) = [0] \<and>
   results (calls (run [Ev_emit 0 Auth, Ev_call ''Steve'' None, Ev_call ''Alex01'' None] init) ! 1) = [] \<and>
   sent (run [Ev_emit 0 Auth, Ev_call ''Steve'' None, Ev_call ''Alex01'' None] init) =
     [(0, ''gamemode survival Steve''), (0, ''gamemode survival Alex01'')] \<and>
   timers (run [Ev_emit 0 Auth, Ev_call ''Steve'' None, Ev_call ''Alex01'' None] init) =
     [(5000, T_timeout 0), (5000, T_timeout 1)]"
  by code_simp

text \<open>
  C2, amended: a call of \<^verbatim>\<open>sendGamemode\<close> made while \<^verbatim>\<open>rconReady\<close> is false invokes the
  callback before it returns, with the error \<^verbatim>\<open>RCON not connected\<close>, and does nothing else:
  no listener, no send, no timer, the flag and the connection as they were. A call made
  while \<^verbatim>\<open>rconReady\<close> is true is dispatched whatever is pending: the command is handed to
  \<^verbatim>\<open>rcon.send\<close> and the 5000 ms timeout is armed.
\<close>

theorem sendGamemode_guard:
  "(\<not> rconReady s \<longrightarrow>
      sendGamemode username thrown s =
        s\<lparr>calls := calls s @
               [\<lparr>handled = False, results = [Failed (Error ''RCON not connected'')]\<rparr>]\<rparr>) \<and>
   (rconReady s \<longrightarrow>
      sent (sendGamemode username thrown s) =
        sent s @ [(rcon s, ''gamemode survival '' @ username)] \<and>
      timers (sendGamemode username thrown s) =
        timers s @ [(now s + 5000, T_timeout (length (calls s)))])"
  by (simp add: sendGamemode_def Let_def callback_def setTimeout_def split: option.splits)

theorem sendGamemode_guard_witness:
  "\<not> rconReady init \<and>
   sendGamemode ''Steve'' None init =
     init\<lparr>calls := [\<lparr>handled = False, results = [Failed (Error ''RCON not connected'')]\<rparr>]\<rparr> \<and>
   rconReady (run [Ev_emit 0 Auth, Ev_call ''Steve'' None] init) \<and>
   sent (sendGamemode ''Alex01'' None (run [Ev_emit 0 Auth, Ev_call ''Steve'' None] init)) =
     [(0, ''gamemode survival Steve''), (0, ''gamemode survival Alex01'')]"
proof -
  have a: "\<not> rconReady init" by code_simp
  have b: "calls init = []" by code_simp
  have c: "rconReady (run [Ev_emit 0 Auth, Ev_call ''Steve'' None] init)" by code_simp
  have d: "sent (run [Ev_emit 0 Auth, Ev_call ''Steve'' None] init) = [(0, ''gamemode survival Steve'')]"
    by code_simp
  have e: "rcon (run [Ev_emit 0 Auth, Ev_call ''Steve'' None] init) = 0" by code_simp
  show ?thesis
    using a b c d e
      sendGamemode_guard [of init "''Steve''" None]
      sendGamemode_guard [of "run [Ev_emit 0 Auth, Ev_call ''Steve'' None] init" "''Alex01''" None]
    by simp
qed

text \<open>
  C3: the completion callback of a dispatched command is invoked exactly once. When
  \<^verbatim>\<open>rcon.send\<close> throws, the \<^verbatim>\<open>catch\<close> block invokes the callback and leaves \<^verbatim>\<open>handled\<close>
  false, so the fallback timeout invokes it again 5000 ms later: two invocations.
\<close>

theorem send_failure_resolves_twice:
  "results (calls (run [Ev_emit 0 Auth,
                        Ev_call ''Steve'' (Some (Error ''write failed'')),
                        Ev_advance 5000] init) ! 0) =
     [Failed (Error ''write failed''), Failed (Error ''RCON command timeout'')]"
  by code_simp

text \<open>
  C4: in every reachable state with \<^verbatim>\<open>rconReady\<close> set, when a command is sent
  (\<^verbatim>\<open>rcon.send\<close> returns) and no
  \<^verbatim>\<open>'response'\<close> or \<^verbatim>\<open>'error'\<close> event follows (connections may authenticate or end, other
  commands may be sent, time may pass), the command stays unresolved while less than
  5000 ms have passed; and once 5000 ms have passed its callback has been invoked exactly
  once, with \<^verbatim>\<open>RCON command timeout\<close>, and no later event of any kind, a late \<^verbatim>\<open>'response'\<close>
  included, invokes it again.
\<close>

theorem timeout_resolves:
  assumes "s = run es init" and "rconReady s" and "quiet evs"
  shows "(now (run evs (sendGamemode username None s)) < now s + 5000 \<longrightarrow>
            results (calls (run evs (sendGamemode username None s)) ! length (calls s)) = []) \<and>
         (now s + 5000 \<le> now (run evs (sendGamemode username None s)) \<longrightarrow>
            (\<forall>later.
               results (calls (run later (run evs (sendGamemode username None s))) ! length (calls s))
                 = [Failed (Error ''RCON command timeout'')]))"
proof -
  let ?s1 = "sendGamemode username None s"
  let ?k = "length (calls s)"
  let ?D = "now s + 5000"
  have "timers_ok s" using assms(1) by (simp add: timers_ok_reachable)
  then have "waiting ?D ?k ?s1"
    using assms(2) by (rule sendGamemode_waiting)
  then have "on_time ?D ?k ?s1" by (simp add: on_time_def)
  then have ot: "on_time ?D ?k (run evs ?s1)"
    using assms(3) by (rule on_time_run)
  have a: "results (calls (run evs ?s1) ! ?k) = []" if "now (run evs ?s1) < ?D"
    using ot that by (simp add: on_time_def waiting_def)
  have b: "results (calls (run later (run evs ?s1)) ! ?k) = [Failed (Error ''RCON command timeout'')]"
    if "?D \<le> now (run evs ?s1)" for later
  proof -
    from ot that have o: "timed_out ?k (run evs ?s1)" by (simp add: on_time_def)
    then have "calls (run later (run evs ?s1)) ! ?k = calls (run evs ?s1) ! ?k"
      by (intro handled_stays) (simp_all add: timed_out_def)
    then show ?thesis using o by (simp add: timed_out_def)
  qed
  show ?thesis using a b by blast
qed

theorem timeout_resolves_witness:
  "rconReady (run [Ev_emit 0 Auth] init) \<and>
   quiet [Ev_emit 0 End, Ev_advance 5000] \<and>
   now (run [Ev_emit 0 Auth] init) + 5000
     \<le> now (run [Ev_emit 0 End, Ev_advance 5000]
              (sendGamemode ''Steve'' None (run [Ev_emit 0 Auth] init))) \<and>
   results (calls (run [Ev_emit 0 (Response ''late'')]
                    (run [Ev_emit 0 End, Ev_advance 5000]
                      (sendGamemode ''Steve'' None (run [Ev_emit 0 Auth] init)))) ! 0)
     = [Failed (Error ''RCON command timeout'')]"
proof -
  let ?s = "run [Ev_emit 0 Auth] init"
  let ?s2 = "run [Ev_emit 0 End, Ev_advance 5000] (sendGamemode ''Steve'' None ?s)"
  have a: "rconReady ?s" by code_simp
  have b: "quiet [Ev_emit 0 End, Ev_advance 5000]" by simp
  have c: "now ?s + 5000 \<le> now ?s2"
    by code_simp
  have d: "length (calls ?s) = 0" by code_simp
  from timeout_resolves [OF refl a b, of "''Steve''"] c
  have "\<forall>later. results (calls (run later ?s2) ! length (calls ?s))
                  = [Failed (Error ''RCON command timeout'')]"
    by blast
  then have "results (calls (run [Ev_emit 0 (Response ''late'')] ?s2) ! length (calls ?s))
               = [Failed (Error ''RCON command timeout'')]"
    by (rule spec)
  then show ?thesis
    using a b c unfolding d by blast
qed




text \<open>
  C6, as stated, fails: the command is resolved with the error of the event, but the flag
  stays set, no new \<^verbatim>\<open>Rcon\<close> object is ever created and the only timer left is the
  command's own timeout.
\<close>

theorem error_keeps_session_counterexample:
  "results (calls (run [Ev_emit 0 Auth, Ev_call ''Steve'' None,
                        Ev_emit 0 (Failure (Error ''ECONNRESET''))] init) ! 0) =
     [Failed (Error ''ECONNRESET'')] \<and>
   rconReady (run [Ev_emit 0 Auth, Ev_call ''Steve'' None,
                   Ev_emit 0 (Failure (Error ''ECONNRESET''))] init) \<and>
   length (conns (run [Ev_emit 0 Auth, Ev_call ''Steve'' None,
                       Ev_emit 0 (Failure (Error ''ECONNRESET'')), Ev_advance 5000] init)) = 1 \<and>
   timers (run [Ev_emit 0 Auth, Ev_call ''Steve'' None,
                Ev_emit 0 (Failure (Error ''ECONNRESET''))] init) = [(5000, T_timeout 0)]"
  by code_simp

text \<open>
  C6, amended: for every \<^verbatim>\<open>'error'\<close> event on an \<^verbatim>\<open>Rcon\<close> object on which \<^verbatim>\<open>onError\<close> of an
  unresolved command is registered, the command is resolved during the dispatch of the
  event, with the error value the event carries; the Session is not torn down: the flag,
  the current connection object and the timers are unchanged and \<^verbatim>\<open>connect\<close> is not called.
\<close>

theorem error_event_effect:
  assumes "c < length (conns s)"
    and "(N_error, OnError k, b) \<in> set (listeners (conns s ! c))"
    and "k < length (calls s)" and "\<not> handled (calls s ! k)"
  shows "calls (emit c (Failure err) s) ! k =
           (calls s ! k)\<lparr>handled := True, results := results (calls s ! k) @ [Failed err]\<rparr> \<and>
         rconReady (emit c (Failure err) s) = rconReady s \<and>
         rcon (emit c (Failure err) s) = rcon s \<and>
         timers (emit c (Failure err) s) = timers s \<and>
         map connect_calls (conns (emit c (Failure err) s)) = map connect_calls (conns s)"
proof -
  have "calls (emit c (Failure err) s) ! k = settle (Failed err) (calls s ! k)"
    using assms by (intro emit_settles [where h = "OnError k" and b = b]) simp_all
  moreover have "session_same s (emit c (Failure err) s)"
    by (rule session_same_emit) simp
  ultimately show ?thesis
    by (simp add: session_same_def settle_def)
qed

theorem error_event_effect_witness:
  "results (calls (emit 0 (Failure (Error ''ECONNRESET''))
      (run [Ev_emit 0 Auth, Ev_call ''Steve'' None] init)) ! 0) = [Failed (Error ''ECONNRESET'')] \<and>
   rconReady (emit 0 (Failure (Error ''ECONNRESET''))
      (run [Ev_emit 0 Auth, Ev_call ''Steve'' None] init)) \<and>
   timers (emit 0 (Failure (Error ''ECONNRESET''))
      (run [Ev_emit 0 Auth, Ev_call ''Steve'' None] init)) = [(5000, T_timeout 0)]"
proof -
  let ?s = "run [Ev_emit 0 Auth, Ev_call ''Steve'' None] init"
  have a: "0 < length (conns ?s)" by code_simp
  have b: "(N_error, OnError 0, True) \<in> set (listeners (conns ?s ! 0))" by code_simp
  have c: "0 < length (calls ?s)" by code_simp
  have d: "\<not> handled (calls ?s ! 0)" by code_simp
  have e: "results (calls ?s ! 0) = []" by code_simp
  have f: "rconReady ?s" by code_simp
  have g: "timers ?s = [(5000, T_timeout 0)]" by code_simp
  show ?thesis
    using e f g error_event_effect [OF a b c d, of "Error ''ECONNRESET''"]
    by simp
qed

text \<open>
  C7: when the fallback timeout resolves a command, only that command changes: its
  \<^verbatim>\<open>handled\<close> is set and its callback receives \<^verbatim>\<open>RCON command timeout\<close>; the flag, the current
  connection object, the pending timers and what was sent are unchanged, and \<^verbatim>\<open>connect\<close> is
  called on no object.
\<close>

theorem timeout_leaves_session:
  assumes "k < length (calls s)" and "\<not> handled (calls s ! k)"
  shows "calls (run_timer (T_timeout k) s) =
           (calls s)[k := (calls s ! k)\<lparr>handled := True,
              results := results (calls s ! k) @ [Failed (Error ''RCON command timeout'')]\<rparr>] \<and>
         rconReady (run_timer (T_timeout k) s) = rconReady s \<and>
         rcon (run_timer (T_timeout k) s) = rcon s \<and>
         timers (run_timer (T_timeout k) s) = timers s \<and>
         sent (run_timer (T_timeout k) s) = sent s \<and>
         map connect_calls (conns (run_timer (T_timeout k) s)) = map connect_calls (conns s)"
  using assms
  by (simp add: timeout_body_def is_handled_def callback_update_conn connect_calls_update_conn
        callback_def set_handled_def)

theorem timeout_leaves_session_witness:
  "calls (run_timer (T_timeout 0) (run [Ev_emit 0 Auth, Ev_call ''Steve'' None] init)) =
     [\<lparr>handled = True, results = [Failed (Error ''RCON command timeout'')]\<rparr>] \<and>
   rconReady (run_timer (T_timeout 0) (run [Ev_emit 0 Auth, Ev_call ''Steve'' None] init)) \<and>
   rcon (run_timer (T_timeout 0) (run [Ev_emit 0 Auth, Ev_call ''Steve'' None] init)) = 0"
proof -
  let ?s = "run [Ev_emit 0 Auth, Ev_call ''Steve'' None] init"
  have a: "0 < length (calls ?s)" by code_simp
  have b: "\<not> handled (calls ?s ! 0)" by code_simp
  have c: "calls ?s = [\<lparr>handled = False, results = []\<rparr>]" by code_simp
  have d: "rconReady ?s" by code_simp
  have e: "rcon ?s = 0" by code_simp
  show ?thesis
    using c d e timeout_leaves_session [OF a b]
    by simp
qed

text \<open>
  C8: in every reachable state, an \<^verbatim>\<open>'end'\<close> event on an \<^verbatim>\<open>Rcon\<close> object of the program
  schedules exactly one timer running \<^verbatim>\<open>connectRcon\<close>, due 5000 ms later. While less than
  5000 ms have passed the timer is still pending; when 5000 ms have passed it has fired,
  no timer is left, and \<^verbatim>\<open>connectRcon\<close> has run once for it (and once for each reconnect
  timer already pending before the event): the flag is still false, and the current
  connection is a new object, with the four listeners, on which \<^verbatim>\<open>connect\<close> has been called.
\<close>

theorem reconnect_after_end:
  assumes "s = run es init" and "c < length (conns s)"
  shows "timers (emit c End s) = timers s @ [(now s + 5000, T_connectRcon)] \<and>
         (\<forall>d<5000. \<exists>pre. timers (step (Ev_advance d) (emit c End s))
                            = pre @ [(now s + 5000, T_connectRcon)]) \<and>
         timers (step (Ev_advance 5000) (emit c End s)) = [] \<and>
         now (step (Ev_advance 5000) (emit c End s)) = now s + 5000 \<and>
         \<not> rconReady (step (Ev_advance 5000) (emit c End s)) \<and>
         length (conns (step (Ev_advance 5000) (emit c End s))) =
           length (conns s) + length (filter (\<lambda>x. snd x = T_connectRcon) (timers s)) + 1 \<and>
         rcon (step (Ev_advance 5000) (emit c End s)) =
           length (conns (step (Ev_advance 5000) (emit c End s))) - 1 \<and>
         last (conns (step (Ev_advance 5000) (emit c End s))) = fresh_rcon"
proof -
  let ?s1 = "emit c End s"
  let ?D = "now s + 5000"
  have ok: "conns_ok s" "timers_ok s"
    using assms(1) by (simp_all add: conns_ok_reachable timers_ok_reachable)
  have e: "?s1 = run_handler H_end End s"
    using ok(1) assms(2) by (rule emit_End)
  then have t1: "timers ?s1 = timers s @ [(?D, T_connectRcon)]"
    and n1: "now ?s1 = now s" and r1: "\<not> rconReady ?s1" and c1: "conns ?s1 = conns s"
    by (simp_all add: setTimeout_def log_def)
  have early: "\<exists>pre. timers (step (Ev_advance d) ?s1) = pre @ [(?D, T_connectRcon)]"
    if "d < 5000" for d
    using advance_to_keeps_last [OF t1, of "now s + d"] that n1 by simp
  have due: "\<forall>x\<in>set (timers ?s1). fst x \<le> ?D"
    unfolding t1 using ok(2) by (auto simp: timers_ok_def)
  let ?as = "map snd (timers s)"
  let ?s' = "fold run_timer ?as ?s1"
  have s2: "step (Ev_advance 5000) ?s1 = (connectRcon ?s')\<lparr>timers := [], now := ?D\<rparr>"
    using advance_to_all_due [OF due] n1 by (simp add: t1)
  have len: "length (conns ?s') =
      length (conns s) + length (filter (\<lambda>x. snd x = T_connectRcon) (timers s))"
    by (simp add: fold_run_timer_conns c1 filter_map comp_def)
  have "\<not> rconReady ?s'"
    using r1 by (simp add: fold_run_timer_ready)
  then show ?thesis
    using t1 early len unfolding s2 by (simp add: connectRcon_conns)
qed

theorem reconnect_after_end_witness:
  "0 < length (conns (run [Ev_emit 0 Auth] init)) \<and>
   timers (emit 0 End (run [Ev_emit 0 Auth] init)) = [(5000, T_connectRcon)] \<and>
   timers (step (Ev_advance 4999) (emit 0 End (run [Ev_emit 0 Auth] init))) = [(5000, T_connectRcon)] \<and>
   rcon (step (Ev_advance 4999) (emit 0 End (run [Ev_emit 0 Auth] init))) = 0 \<and>
   rcon (step (Ev_advance 5000) (emit 0 End (run [Ev_emit 0 Auth] init))) = 1 \<and>
   length (conns (step (Ev_advance 5000) (emit 0 End (run [Ev_emit 0 Auth] init)))) = 2"
proof -
  let ?s = "run [Ev_emit 0 Auth] init"
  have a: "0 < length (conns ?s)" by code_simp
  have b: "timers ?s = []" by code_simp
  have c: "now ?s = 0" by code_simp
  have d: "length (conns ?s) = 1" by code_simp
  have e: "timers (step (Ev_advance 4999) (emit 0 End ?s)) = [(5000, T_connectRcon)]" by code_simp
  have f: "rcon (step (Ev_advance 4999) (emit 0 End ?s)) = 0" by code_simp
  show ?thesis
    using a e f reconnect_after_end [OF refl a] unfolding b c d by simp
qed

text \<open>
  C9: in every reachable state with \<^verbatim>\<open>rconReady\<close> set, when a command is sent
  (\<^verbatim>\<open>rcon.send\<close> returns) and the connection it was sent on emits \<^verbatim>\<open>'response'\<close> with a text
  before 5000 ms have passed, with no other \<^verbatim>\<open>'response'\<close> or \<^verbatim>\<open>'error'\<close> event in between,
  the callback of that command is invoked with exactly that text, and it is the only
  invocation, whatever happens later.
\<close>

theorem round_trip:
  assumes "s = run es init" and "rconReady s" and "quiet evs"
    and "now (run evs (sendGamemode username None s)) < now s + 5000"
  shows "\<forall>later.
           results (calls (run later (emit (rcon s) (Response txt)
                                       (run evs (sendGamemode username None s))))
                    ! length (calls s)) = [Done txt]"
proof
  fix later
  let ?s1 = "sendGamemode username None s"
  let ?s2 = "run evs ?s1"
  let ?s3 = "emit (rcon s) (Response txt) ?s2"
  let ?k = "length (calls s)"
  let ?D = "now s + 5000"
  have ok: "conns_ok s" "timers_ok s"
    using assms(1) by (simp_all add: conns_ok_reachable timers_ok_reachable)
  then have r: "rcon s < length (conns s)" by (simp add: conns_ok_def)
  have "waiting ?D ?k ?s1"
    using ok(2) assms(2) by (rule sendGamemode_waiting)
  then have o1: "on_time ?D ?k ?s1" by (simp add: on_time_def)
  then have "on_time ?D ?k ?s2" using assms(3) by (rule on_time_run)
  then have w: "waiting ?D ?k ?s2" using assms(4) by (simp add: on_time_def)
  have "listening (rcon s) ?k ?s1"
    using assms(2) r by (rule sendGamemode_listening)
  then have l: "listening (rcon s) ?k ?s2"
    using o1 assms(3,4) by (intro listening_run [where D = ?D]) simp_all
  have k3: "calls ?s3 ! ?k = settle (Done txt) (calls ?s2 ! ?k)"
    using w l
    by (intro emit_settles [where h = "OnResponse ?k" and b = True])
       (simp_all add: listening_def waiting_def)
  then have "handled (calls ?s3 ! ?k)" by (simp add: settle_def)
  moreover have "?k < length (calls ?s3)"
    using w emit_settle [of ?s2 "rcon s" "Response txt"]
    by (simp add: waiting_def calls_settle_def)
  ultimately have "calls (run later ?s3) ! ?k = calls ?s3 ! ?k"
    by (intro handled_stays)
  then show "results (calls (run later ?s3) ! ?k) = [Done txt]"
    using k3 w by (simp add: settle_def waiting_def)
qed

theorem round_trip_witness:
  "rconReady (run [Ev_emit 0 Auth] init) \<and>
   quiet [Ev_advance 1200] \<and>
   now (run [Ev_advance 1200] (sendGamemode ''echo'' None (run [Ev_emit 0 Auth] init)))
     < now (run [Ev_emit 0 Auth] init) + 5000 \<and>
   results (calls (run [Ev_advance 5000]
                    (emit 0 (Response ''echo'')
                      (run [Ev_advance 1200]
                        (sendGamemode ''echo'' None (run [Ev_emit 0 Auth] init))))) ! 0)
     = [Done ''echo'']"
proof -
  let ?s = "run [Ev_emit 0 Auth] init"
  have a: "rconReady ?s" by code_simp
  have b: "quiet [Ev_advance 1200]" by simp
  have c: "now (run [Ev_advance 1200] (sendGamemode ''echo'' None ?s)) < now ?s + 5000"
    by code_simp
  have d: "rcon ?s = 0" by code_simp
  have e: "length (calls ?s) = 0" by code_simp
  from round_trip [OF refl a b c, of "''echo''"]
  have "results (calls (run [Ev_advance 5000]
          (emit (rcon ?s) (Response ''echo'')
            (run [Ev_advance 1200] (sendGamemode ''echo'' None ?s)))) ! length (calls ?s))
        = [Done ''echo'']"
    by (rule spec)
  then show ?thesis
    using a b c unfolding d e by blast
qed

text \<open>
  C10, as stated, fails: the handler trims the submitted username before the test and
  the send. For the submitted value \<^verbatim>\<open>" Steve_01 "\<close> the command sent is not
  \<^verbatim>\<open>gamemode survival\<close> followed by the submitted value, and the submitted value does not
  pass the test.
\<close>

theorem submitted_username_counterexample:
  "sent (snd (post_set (units ''pw'') (Some (units '' Steve_01 '')) (Some (units ''pw'')) None
                (run [Ev_emit 0 Auth] init))) = [(0, ''gamemode survival Steve_01'')] \<and>
   ''gamemode survival Steve_01'' \<noteq> ''gamemode survival '' @ '' Steve_01 '' \<and>
   \<not> username_test (units '' Steve_01 '')"
proof -
  let ?s = "run [Ev_emit 0 Auth] init"
  have r: "rconReady ?s" by code_simp
  have c: "sent ?s = []" by code_simp
  have d: "rcon ?s = 0" by code_simp
  have t: "trim (units '' Steve_01 '') = units ''Steve_01''"
    by (simp add: trim_def units_def js_space_def)
  have ok: "username_test (units ''Steve_01'')"
    by (simp add: username_test_iff units_def word_char_def)
  have n: "narrow (units ''Steve_01'') = ''Steve_01''"
    by (rule narrow_units)
  have pw: "units ''pw'' \<noteq> []" by (simp add: units_def)
  have "post_set (units ''pw'') (Some (units '' Steve_01 '')) (Some (units ''pw'')) None ?s =
          (None, sendGamemode ''Steve_01'' None ?s)"
    using r ok pw by (simp add: post_set_def Let_def or_empty_def t n)
  then have "sent (snd (post_set (units ''pw'') (Some (units '' Steve_01 ''))
                 (Some (units ''pw'')) None ?s)) = [(0, ''gamemode survival Steve_01'')]"
    using r c d by (simp add: sent_sendGamemode)
  moreover have "\<not> username_test (units '' Steve_01 '')"
    by (simp add: username_test_iff units_def word_char_def)
  ultimately show ?thesis by simp
qed

text \<open>
  C10, amended: whenever the handler of POST \<^verbatim>\<open>/set\<close> hands a command to \<^verbatim>\<open>rcon.send\<close>, the
  command is \<^verbatim>\<open>gamemode survival\<close>, one space, and the submitted username after \<^verbatim>\<open>trim()\<close>; that
  trimmed username is 3 to 16 code units long and consists of ASCII letters, digits and
  underscores only, so no space, separator or control character of the request reaches
  the remote console.
\<close>

theorem post_set_command:
  assumes "post_set AUTH_PASSWORD p_username p_password thrown s = (reply, s')"
    and "sent s' \<noteq> sent s"
  shows "sent s' =
           sent s @ [(rcon s, ''gamemode survival '' @ narrow (trim (or_empty p_username)))] \<and>
         units (''gamemode survival '' @ narrow (trim (or_empty p_username))) =
           units ''gamemode survival '' @ trim (or_empty p_username) \<and>
         3 \<le> length (trim (or_empty p_username)) \<and>
         length (trim (or_empty p_username)) \<le> 16 \<and>
         set (trim (or_empty p_username))
           \<subseteq> set (units ''ABCDEFGHIJKLMNOPQRSTUVWXYZabcdefghijklmnopqrstuvwxyz0123456789_'')"
proof -
  let ?u = "trim (or_empty p_username)"
  have go: "username_test ?u \<and> rconReady s \<and> s' = sendGamemode (narrow ?u) thrown s"
    using assms by (auto simp: post_set_def Let_def split: if_splits)
  then have t: "3 \<le> length ?u \<and> length ?u \<le> 16 \<and> (\<forall>c\<in>set ?u. word_char c)"
    by (simp add: username_test_iff)
  then have "units (narrow ?u) = ?u"
    by (intro units_narrow word_char_small) blast
  then have "units (''gamemode survival '' @ narrow ?u) = units ''gamemode survival '' @ ?u"
    by (simp only: units_append)
  moreover have "sent s' = sent s @ [(rcon s, ''gamemode survival '' @ narrow ?u)]"
    using go by (simp add: sent_sendGamemode)
  moreover have "set ?u
      \<subseteq> set (units ''ABCDEFGHIJKLMNOPQRSTUVWXYZabcdefghijklmnopqrstuvwxyz0123456789_'')"
    using t word_char_alphabet by blast
  ultimately show ?thesis
    using t by blast
qed

theorem post_set_command_witness:
  "post_set (units ''pw'') (Some (8195 # units ''Steve_01'' @ [65279])) (Some (units ''pw'')) None
     (run [Ev_emit 0 Auth] init) =
     (None, sendGamemode ''Steve_01'' None (run [Ev_emit 0 Auth] init)) \<and>
   sent (sendGamemode ''Steve_01'' None (run [Ev_emit 0 Auth] init)) \<noteq>
     sent (run [Ev_emit 0 Auth] init) \<and>
   sent (sendGamemode ''Steve_01'' None (run [Ev_emit 0 Auth] init)) =
     [(0, ''gamemode survival Steve_01'')] \<and>
   trim (8195 # units ''Steve_01'' @ [65279]) = units ''Steve_01''"
proof -
  let ?s = "run [Ev_emit 0 Auth] init"
  let ?p = "Some (8195 # units ''Steve_01'' @ [65279])"
  have r: "rconReady ?s" by code_simp
  have c: "sent ?s = []" by code_simp
  have d: "rcon ?s = 0" by code_simp
  have t: "trim (8195 # units ''Steve_01'' @ [65279]) = units ''Steve_01''"
    by (simp add: trim_def units_def js_space_def)
  have ok: "username_test (units ''Steve_01'')"
    by (simp add: username_test_iff units_def word_char_def)
  have n: "narrow (units ''Steve_01'') = ''Steve_01''"
    by (rule narrow_units)
  have pw: "units ''pw'' \<noteq> []" by (simp add: units_def)
  have a: "post_set (units ''pw'') ?p (Some (units ''pw'')) None ?s =
     (None, sendGamemode ''Steve_01'' None ?s)"
    using r ok pw by (simp add: post_set_def Let_def or_empty_def t n)
  have b: "sent (sendGamemode ''Steve_01'' None ?s) \<noteq> sent ?s"
    using r by (simp add: sent_sendGamemode)
  have "sent (sendGamemode ''Steve_01'' None ?s) =
          sent ?s @ [(rcon ?s, ''gamemode survival '' @ narrow (trim (or_empty ?p)))]"
    using post_set_command [OF a b] by blast
  then have "sent (sendGamemode ''Steve_01'' None ?s) = [(0, ''gamemode survival Steve_01'')]"
    using c d by (simp add: or_empty_def t n)
  then show ?thesis
    using a b t by blast
qed

end
